theory Spec2Isabelle
  imports Main "HOL-Library.Word"
begin

unbundle bit_operations_syntax

section \<open>Python values and exceptions\<close>

text \<open>
  Bytes objects are lists of 8-bit words.  A Python \<open>str\<close> is its list of code points.
  A Python float is carried by its IEEE-754 binary64 bit pattern, which is what
  \<open>struct.pack('<d', x)\<close> writes and \<open>struct.unpack\<close> reads back.
\<close>

type_synonym byte = "8 word"
type_synonym bytes = "byte list"
type_synonym pystr = "nat list"

datatype pyval = PyNone | PyInt int | PyFloat "64 word" | PyStr pystr

text \<open>
  The exceptions the codec raises or lets through.  \<open>ValueError\<close> and \<open>RuntimeError\<close>
  carry the fixed part of the message.  \<open>UnicodeEncodeError\<close> and \<open>UnicodeDecodeError\<close>
  are subclasses of \<open>ValueError\<close> in Python.  \<open>CoercionNotModelled\<close> is not a Python
  exception: it marks the calls \<open>int(v)\<close>, \<open>float(v)\<close> and \<open>str(v)\<close> on a value of
  another type than the column's, whose result this development does not compute.
\<close>

datatype error =
    ValueError string
  | RuntimeError string
  | EOFError
  | StructError
  | UnicodeEncodeError
  | UnicodeDecodeError
  | IndexError
  | TypeError
  | FileNotFoundError
  | CoercionNotModelled

fun is_ValueError :: "error \<Rightarrow> bool" where
  "is_ValueError (ValueError m) = True"
| "is_ValueError UnicodeEncodeError = True"
| "is_ValueError UnicodeDecodeError = True"
| "is_ValueError e = False"

fun ebind :: "error + 'a \<Rightarrow> ('a \<Rightarrow> error + 'b) \<Rightarrow> error + 'b" where
  "ebind (Inl e) f = Inl e"
| "ebind (Inr x) f = f x"

text \<open>The slice \<open>xs[i:j]\<close> for non-negative \<open>i\<close> and \<open>j\<close>; it never raises.\<close>

definition slice :: "'a list \<Rightarrow> nat \<Rightarrow> nat \<Rightarrow> 'a list" where
  "slice xs i j = take (j - i) (drop i xs)"

text \<open>The slice \<open>xs[i:]\<close>; a negative \<open>i\<close> counts from the end.\<close>

definition slice_from :: "'a list \<Rightarrow> int \<Rightarrow> 'a list" where
  "slice_from xs i = (if 0 \<le> i then drop (nat i) xs else drop (nat (int (length xs) + i)) xs)"

section \<open>byte\_utils.py\<close>

definition MAGIC :: bytes where
  "MAGIC = [0x43, 0x53, 0x54, 0x4D]"

definition VERSION :: int where
  "VERSION = 1"

definition HEADER_PREFIX_LEN :: nat where
  "HEADER_PREFIX_LEN = 0x14"

text \<open>Little-endian bytes of an integer, two's complement for a negative one.\<close>

fun le_bytes :: "nat \<Rightarrow> int \<Rightarrow> bytes" where
  "le_bytes 0 x = []"
| "le_bytes (Suc n) x = word_of_int x # le_bytes n (x div 256)"

fun le_int :: "bytes \<Rightarrow> int" where
  "le_int [] = 0"
| "le_int (b # bs) = uint b + 256 * le_int bs"

text \<open>\<open>struct.pack\<close> raises \<open>struct.error\<close> when the argument is out of the format's range,
  \<open>struct.unpack\<close> when the buffer has not exactly the format's size.\<close>

definition pack_uint :: "nat \<Rightarrow> int \<Rightarrow> error + bytes" where
  "pack_uint n x = (if 0 \<le> x \<and> x < 256 ^ n then Inr (le_bytes n x) else Inl StructError)"

definition unpack_uint :: "nat \<Rightarrow> bytes \<Rightarrow> error + int" where
  "unpack_uint n b = (if length b = n then Inr (le_int b) else Inl StructError)"

definition pack_u8 :: "int \<Rightarrow> error + bytes" where
  "pack_u8 x = pack_uint 1 x"

definition unpack_u8 :: "bytes \<Rightarrow> error + int" where
  "unpack_u8 b = unpack_uint 1 b"

definition pack_u16 :: "int \<Rightarrow> error + bytes" where
  "pack_u16 x = pack_uint 2 x"

definition unpack_u16 :: "bytes \<Rightarrow> error + int" where
  "unpack_u16 b = unpack_uint 2 b"

definition pack_u32 :: "int \<Rightarrow> error + bytes" where
  "pack_u32 x = pack_uint 4 x"

definition unpack_u32 :: "bytes \<Rightarrow> error + int" where
  "unpack_u32 b = unpack_uint 4 b"

definition pack_u64 :: "int \<Rightarrow> error + bytes" where
  "pack_u64 x = pack_uint 8 x"

definition unpack_u64 :: "bytes \<Rightarrow> error + int" where
  "unpack_u64 b = unpack_uint 8 b"

definition pack_i32 :: "int \<Rightarrow> error + bytes" where
  "pack_i32 x = (if - (2 ^ 31) \<le> x \<and> x < 2 ^ 31 then Inr (le_bytes 4 x) else Inl StructError)"

definition unpack_i32 :: "bytes \<Rightarrow> error + int" where
  "unpack_i32 b =
     (if length b = 4 then Inr (sint (word_of_int (le_int b) :: 32 word)) else Inl StructError)"

definition pack_f64 :: "64 word \<Rightarrow> bytes" where
  "pack_f64 x = le_bytes 8 (uint x)"

definition unpack_f64 :: "bytes \<Rightarrow> error + 64 word" where
  "unpack_f64 b = (if length b = 8 then Inr (word_of_int (le_int b)) else Inl StructError)"

definition SIZE_U8 :: nat where "SIZE_U8 = 1"
definition SIZE_U16 :: nat where "SIZE_U16 = 2"
definition SIZE_U32 :: nat where "SIZE_U32 = 4"
definition SIZE_U64 :: nat where "SIZE_U64 = 8"
definition SIZE_I32 :: nat where "SIZE_I32 = 4"
definition SIZE_F64 :: nat where "SIZE_F64 = 8"

section \<open>The built-in UTF-8 codec\<close>

text \<open>
  \<open>str.encode('utf-8')\<close> and \<open>bytes.decode('utf-8')\<close> in their default strict mode.
  Encoding raises on a surrogate code point; decoding accepts exactly the well-formed
  byte sequences of the Unicode standard (no overlong forms, no surrogates, nothing above
  U+10FFFF).  A number from 0x110000 on is no code point of a Python \<open>str\<close>; the model
  refuses it like a surrogate.
\<close>

definition utf8_encode_char :: "nat \<Rightarrow> error + bytes" where
  "utf8_encode_char c =
     (if c < 0x80 then Inr [of_nat c]
      else if c < 0x800 then Inr [of_nat (0xC0 + c div 64), of_nat (0x80 + c mod 64)]
      else if c < 0x10000 then
        (if 0xD800 \<le> c \<and> c \<le> 0xDFFF then Inl UnicodeEncodeError
         else Inr [of_nat (0xE0 + c div 4096), of_nat (0x80 + c div 64 mod 64),
                   of_nat (0x80 + c mod 64)])
      else if c < 0x110000 then
        Inr [of_nat (0xF0 + c div 262144), of_nat (0x80 + c div 4096 mod 64),
             of_nat (0x80 + c div 64 mod 64), of_nat (0x80 + c mod 64)]
      else Inl UnicodeEncodeError)"

fun utf8_encode :: "pystr \<Rightarrow> error + bytes" where
  "utf8_encode [] = Inr []"
| "utf8_encode (c # cs) =
     ebind (utf8_encode_char c) (\<lambda>b. ebind (utf8_encode cs) (\<lambda>bs. Inr (b @ bs)))"

definition is_cont :: "nat \<Rightarrow> bool" where
  "is_cont b = (0x80 \<le> b \<and> b \<le> 0xBF)"

fun utf8_decode_nat :: "nat list \<Rightarrow> error + pystr" where
  "utf8_decode_nat [] = Inr []"
| "utf8_decode_nat (b0 # bs) =
     (if b0 < 0x80 then ebind (utf8_decode_nat bs) (\<lambda>s. Inr (b0 # s))
      else if 0xC2 \<le> b0 \<and> b0 \<le> 0xDF then
        (case bs of
           b1 # r \<Rightarrow>
             if is_cont b1
             then ebind (utf8_decode_nat r) (\<lambda>s. Inr (((b0 - 0xC0) * 64 + (b1 - 0x80)) # s))
             else Inl UnicodeDecodeError
         | _ \<Rightarrow> Inl UnicodeDecodeError)
      else if 0xE0 \<le> b0 \<and> b0 \<le> 0xEF then
        (case bs of
           b1 # b2 # r \<Rightarrow>
             if (if b0 = 0xE0 then 0xA0 else 0x80) \<le> b1
                \<and> b1 \<le> (if b0 = 0xED then 0x9F else 0xBF) \<and> is_cont b2
             then ebind (utf8_decode_nat r)
                    (\<lambda>s. Inr (((b0 - 0xE0) * 4096 + (b1 - 0x80) * 64 + (b2 - 0x80)) # s))
             else Inl UnicodeDecodeError
         | _ \<Rightarrow> Inl UnicodeDecodeError)
      else if 0xF0 \<le> b0 \<and> b0 \<le> 0xF4 then
        (case bs of
           b1 # b2 # b3 # r \<Rightarrow>
             if (if b0 = 0xF0 then 0x90 else 0x80) \<le> b1
                \<and> b1 \<le> (if b0 = 0xF4 then 0x8F else 0xBF) \<and> is_cont b2 \<and> is_cont b3
             then ebind (utf8_decode_nat r)
                    (\<lambda>s. Inr (((b0 - 0xF0) * 262144 + (b1 - 0x80) * 4096
                               + (b2 - 0x80) * 64 + (b3 - 0x80)) # s))
             else Inl UnicodeDecodeError
         | _ \<Rightarrow> Inl UnicodeDecodeError)
      else Inl UnicodeDecodeError)"

definition utf8_decode :: "bytes \<Rightarrow> error + pystr" where
  "utf8_decode b = utf8_decode_nat (map unat b)"

text \<open>The strings that \<open>encode\<close> accepts: every code point a Unicode scalar value.\<close>

definition scalar_value :: "nat \<Rightarrow> bool" where
  "scalar_value c = (c < 0xD800 \<or> (0xE000 \<le> c \<and> c < 0x110000))"

section \<open>column\_serializers.py\<close>

definition I32_MIN :: int where "I32_MIN = - (2 ^ 31)"
definition I32_MAX :: int where "I32_MAX = 2 ^ 31 - 1"
definition UINT32_MAX :: int where "UINT32_MAX = 0xFFFFFFFF"

text \<open>\<open>int(v)\<close>, \<open>float(v)\<close> and the bytes of \<open>v\<close> as a string (\<open>v.encode\<close> for a
  \<open>str\<close>, \<open>str(v).encode\<close> otherwise), on a value of the column's own type.\<close>

fun py_int :: "pyval \<Rightarrow> error + int" where
  "py_int (PyInt i) = Inr i"
| "py_int PyNone = Inl TypeError"
| "py_int v = Inl CoercionNotModelled"

fun py_float :: "pyval \<Rightarrow> error + 64 word" where
  "py_float (PyFloat x) = Inr x"
| "py_float PyNone = Inl TypeError"
| "py_float v = Inl CoercionNotModelled"

fun py_str_bytes :: "pyval \<Rightarrow> error + bytes" where
  "py_str_bytes (PyStr s) = utf8_encode s"
| "py_str_bytes v = Inl CoercionNotModelled"

fun serialize_int32_column :: "pyval list \<Rightarrow> error + bytes" where
  "serialize_int32_column [] = Inr []"
| "serialize_int32_column (v # vs) =
     (if v = PyNone
      then Inl (ValueError ''Null values not supported for INT32 in this implementation.'')
      else ebind (py_int v) (\<lambda>iv.
        if iv < I32_MIN \<or> iv > I32_MAX then Inl (ValueError ''Value out of int32 range'')
        else ebind (pack_i32 iv) (\<lambda>b.
          ebind (serialize_int32_column vs) (\<lambda>buf. Inr (b @ buf)))))"

fun serialize_float64_column :: "pyval list \<Rightarrow> error + bytes" where
  "serialize_float64_column [] = Inr []"
| "serialize_float64_column (v # vs) =
     (if v = PyNone
      then Inl (ValueError ''Null values not supported for FLOAT64 in this implementation.'')
      else ebind (py_float v) (\<lambda>fv.
        ebind (serialize_float64_column vs) (\<lambda>buf. Inr (pack_f64 fv @ buf))))"

text \<open>The first loop of \<open>serialize_string_column\<close>: the encoded parts, in order.\<close>

fun string_parts :: "pyval list \<Rightarrow> error + bytes list" where
  "string_parts [] = Inr []"
| "string_parts (v # vs) =
     ebind (if v = PyNone then Inr [] else py_str_bytes v) (\<lambda>b.
       ebind (string_parts vs) (\<lambda>data_parts. Inr (b # data_parts)))"

text \<open>The offsets the same loop appends: \<open>cur\<close> before each part and after the last.\<close>

fun string_offsets :: "int \<Rightarrow> bytes list \<Rightarrow> int list" where
  "string_offsets cur [] = [cur]"
| "string_offsets cur (b # data_parts) = cur # string_offsets (cur + int (length b)) data_parts"

fun pack_u32_all :: "int list \<Rightarrow> error + bytes" where
  "pack_u32_all [] = Inr []"
| "pack_u32_all (off # offs) =
     ebind (pack_u32 off) (\<lambda>b. ebind (pack_u32_all offs) (\<lambda>buf. Inr (b @ buf)))"

definition serialize_string_column :: "pyval list \<Rightarrow> error + bytes" where
  "serialize_string_column values =
     ebind (string_parts values) (\<lambda>data_parts.
       let offsets = string_offsets 0 data_parts;
           total_data_len = last offsets
       in if total_data_len > UINT32_MAX
          then Inl (ValueError ''Total string data exceeds 4GiB; 32-bit offsets cannot represent this.'')
          else ebind (pack_u32_all offsets) (\<lambda>buf. Inr (buf @ concat data_parts)))"

text \<open>The loop of \<open>parse_int32_block\<close>: \<open>n\<close> more chunks from position \<open>off\<close>.\<close>

fun int32_loop :: "bytes \<Rightarrow> nat \<Rightarrow> nat \<Rightarrow> error + int list" where
  "int32_loop data off 0 = Inr []"
| "int32_loop data off (Suc n) =
     ebind (unpack_i32 (slice data off (off + SIZE_I32))) (\<lambda>val.
       ebind (int32_loop data (off + SIZE_I32) n) (\<lambda>out. Inr (val # out)))"

definition parse_int32_block :: "bytes \<Rightarrow> int \<Rightarrow> error + int list" where
  "parse_int32_block data num_values =
     (let expected = num_values * int SIZE_I32
      in if int (length data) \<noteq> expected
         then Inl (ValueError ''INT32 block size mismatch'')
         else int32_loop data 0 (nat num_values))"

fun float64_loop :: "bytes \<Rightarrow> nat \<Rightarrow> nat \<Rightarrow> error + 64 word list" where
  "float64_loop data off 0 = Inr []"
| "float64_loop data off (Suc n) =
     ebind (unpack_f64 (slice data off (off + SIZE_F64))) (\<lambda>val.
       ebind (float64_loop data (off + SIZE_F64) n) (\<lambda>out. Inr (val # out)))"

definition parse_float64_block :: "bytes \<Rightarrow> int \<Rightarrow> error + 64 word list" where
  "parse_float64_block data num_values =
     (let expected = num_values * int SIZE_F64
      in if int (length data) \<noteq> expected
         then Inl (ValueError ''FLOAT64 block size mismatch'')
         else float64_loop data 0 (nat num_values))"

text \<open>The offsets loop of \<open>parse_string_block\<close>.\<close>

fun u32_loop :: "bytes \<Rightarrow> nat \<Rightarrow> nat \<Rightarrow> error + int list" where
  "u32_loop data off 0 = Inr []"
| "u32_loop data off (Suc n) =
     ebind (unpack_u32 (slice data off (off + SIZE_U32))) (\<lambda>val.
       ebind (u32_loop data (off + SIZE_U32) n) (\<lambda>offsets. Inr (val # offsets)))"

text \<open>Its last loop: \<open>n\<close> more strings from index \<open>i\<close>.  The indices \<open>i\<close> and \<open>i + 1\<close> are
  within \<open>offsets\<close>, which has one entry more than the loop has rounds.\<close>

fun strings_loop :: "bytes \<Rightarrow> int list \<Rightarrow> nat \<Rightarrow> nat \<Rightarrow> error + pystr list" where
  "strings_loop data_section offsets i 0 = Inr []"
| "strings_loop data_section offsets i (Suc n) =
     (let s_off = offsets ! i; s_end = offsets ! (i + 1)
      in if s_off > s_end then Inl (ValueError ''Invalid offsets'')
         else ebind (utf8_decode (slice data_section (nat s_off) (nat s_end))) (\<lambda>s.
           ebind (strings_loop data_section offsets (i + 1) n) (\<lambda>out. Inr (s # out))))"

definition parse_string_block :: "bytes \<Rightarrow> int \<Rightarrow> error + pystr list" where
  "parse_string_block data num_values =
     (let offsets_byte_len = (num_values + 1) * int SIZE_U32
      in if int (length data) < offsets_byte_len
         then Inl (ValueError ''STRING block too small for offsets'')
         else ebind (u32_loop data 0 (nat (num_values + 1))) (\<lambda>offsets.
           let data_section = slice_from data offsets_byte_len
           in if offsets = [] then Inl IndexError
              else if last offsets > int (length data_section)
              then Inl (ValueError ''Last offset exceeds data section length'')
              else strings_loop data_section offsets 0 (nat num_values)))"

section \<open>header\_utils.py\<close>

text \<open>A column entry: the dictionary with the seven keys that the writer builds and the
  header parser returns (\<open>type_id\<close> is the key \<open>type\<close>).  Names are \<open>str\<close> objects.\<close>

record column_entry =
  name :: pystr
  type_id :: int
  flags :: int
  num_values :: int
  offset :: int
  comp_size :: int
  uncomp_size :: int

text \<open>One round of the loop of \<open>build_header\<close>.\<close>

definition build_entry :: "column_entry \<Rightarrow> error + bytes" where
  "build_entry entry =
     ebind (utf8_encode (name entry)) (\<lambda>name_b.
       let name_len = int (length name_b)
       in if name_len \<ge> 2 ^ 16 then Inl (ValueError ''Column name too long (>65535 bytes)'')
          else ebind (pack_u16 name_len) (\<lambda>b_len.
            ebind (pack_u8 (type_id entry)) (\<lambda>b_type.
            ebind (pack_u8 (flags entry)) (\<lambda>b_flags.
            ebind (pack_u64 (num_values entry)) (\<lambda>b_num.
            ebind (pack_u64 (offset entry)) (\<lambda>b_off.
            ebind (pack_u64 (comp_size entry)) (\<lambda>b_comp.
            ebind (pack_u64 (uncomp_size entry)) (\<lambda>b_uncomp.
              Inr (b_len @ name_b @ b_type @ b_flags @ b_num @ b_off @ b_comp @ b_uncomp)))))))))"

fun build_entries :: "column_entry list \<Rightarrow> error + bytes" where
  "build_entries [] = Inr []"
| "build_entries (entry # rest) =
     ebind (build_entry entry) (\<lambda>b. ebind (build_entries rest) (\<lambda>buf. Inr (b @ buf)))"

definition build_header :: "int \<Rightarrow> int \<Rightarrow> column_entry list \<Rightarrow> error + bytes" where
  "build_header schema_signature total_rows column_entries =
     ebind (pack_u32 (schema_signature AND 0xFFFFFFFF)) (\<lambda>b_sig.
     ebind (pack_u64 total_rows) (\<lambda>b_rows.
     ebind (pack_u32 (int (length column_entries))) (\<lambda>b_cols.
     ebind (build_entries column_entries) (\<lambda>buf.
       Inr (b_sig @ b_rows @ b_cols @ buf)))))"

text \<open>\<open>raw = buf.read(n)\<close> followed by \<open>if len(raw) < n: raise ValueError(msg)\<close>, on the
  bytes the stream has left; the result is the chunk and the rest of the stream.\<close>

definition read_field :: "bytes \<Rightarrow> nat \<Rightarrow> string \<Rightarrow> error + (bytes \<times> bytes)" where
  "read_field buf n msg =
     (let raw = take n buf
      in if length raw < n then Inl (ValueError msg) else Inr (raw, drop n buf))"

text \<open>One round of the loop of \<open>parse_header\<close>.\<close>

definition parse_column :: "bytes \<Rightarrow> error + (column_entry \<times> bytes)" where
  "parse_column buf =
     ebind (read_field buf SIZE_U16 ''Header truncated reading name_length'') (\<lambda>(raw, buf).
     ebind (unpack_u16 raw) (\<lambda>name_len.
     ebind (read_field buf (nat name_len) ''Header truncated reading name bytes'') (\<lambda>(name_b, buf).
     ebind (utf8_decode name_b) (\<lambda>name.
     ebind (read_field buf SIZE_U8 ''Header truncated reading type'') (\<lambda>(raw, buf).
     ebind (unpack_u8 raw) (\<lambda>type_id.
     ebind (read_field buf SIZE_U8 ''Header truncated reading flags'') (\<lambda>(raw, buf).
     ebind (unpack_u8 raw) (\<lambda>flags.
     ebind (read_field buf SIZE_U64 ''Header truncated reading num_values'') (\<lambda>(raw, buf).
     ebind (unpack_u64 raw) (\<lambda>num_values.
     ebind (read_field buf SIZE_U64 ''Header truncated reading offset'') (\<lambda>(raw, buf).
     ebind (unpack_u64 raw) (\<lambda>offset.
     ebind (read_field buf SIZE_U64 ''Header truncated reading comp_size'') (\<lambda>(raw, buf).
     ebind (unpack_u64 raw) (\<lambda>comp_size.
     ebind (read_field buf SIZE_U64 ''Header truncated reading uncomp_size'') (\<lambda>(raw, buf).
     ebind (unpack_u64 raw) (\<lambda>uncomp_size.
       Inr (\<lparr>name = name, type_id = type_id, flags = flags, num_values = num_values,
             offset = offset, comp_size = comp_size, uncomp_size = uncomp_size\<rparr>,
            buf)))))))))))))))))"

fun parse_columns :: "nat \<Rightarrow> bytes \<Rightarrow> error + column_entry list" where
  "parse_columns 0 buf = Inr []"
| "parse_columns (Suc n) buf =
     ebind (parse_column buf) (\<lambda>(col, buf).
       ebind (parse_columns n buf) (\<lambda>columns. Inr (col # columns)))"

definition parse_header :: "bytes \<Rightarrow> error + (int \<times> int \<times> column_entry list)" where
  "parse_header header_bytes =
     ebind (read_field header_bytes SIZE_U32 ''Header too short when reading schema_signature'')
       (\<lambda>(raw, buf).
     ebind (unpack_u32 raw) (\<lambda>schema_sig.
     ebind (read_field buf SIZE_U64 ''Header too short when reading total_rows'') (\<lambda>(raw, buf).
     ebind (unpack_u64 raw) (\<lambda>total_rows.
     ebind (read_field buf SIZE_U32 ''Header too short when reading num_columns'') (\<lambda>(raw, buf).
     ebind (unpack_u32 raw) (\<lambda>num_columns.
     ebind (parse_columns (nat num_columns) buf) (\<lambda>columns.
       Inr (schema_sig, total_rows, columns))))))))"

section \<open>Files\<close>

text \<open>An open binary file: its bytes and the position of the handle.  A write replaces
  the bytes under it and extends the file; a read returns what is there, at most \<open>n\<close>
  bytes.  The file system maps a path to the bytes of the file stored there.\<close>

record pyfile =
  fbytes :: bytes
  fpos :: nat

type_synonym filesystem = "string \<rightharpoonup> bytes"

definition f_write :: "pyfile \<Rightarrow> bytes \<Rightarrow> pyfile" where
  "f_write f data =
     \<lparr>fbytes = take (fpos f) (fbytes f) @ replicate (fpos f - length (fbytes f)) 0 @ data
               @ drop (fpos f + length data) (fbytes f),
      fpos = fpos f + length data\<rparr>"

definition f_tell :: "pyfile \<Rightarrow> nat" where
  "f_tell f = fpos f"

definition f_seek :: "pyfile \<Rightarrow> nat \<Rightarrow> pyfile" where
  "f_seek f p = f\<lparr>fpos := p\<rparr>"

definition f_read :: "pyfile \<Rightarrow> nat \<Rightarrow> bytes \<times> pyfile" where
  "f_read f n =
     (let data = take n (drop (fpos f) (fbytes f)) in (data, f\<lparr>fpos := fpos f + length data\<rparr>))"

definition read_exact :: "pyfile \<Rightarrow> nat \<Rightarrow> error + (bytes \<times> pyfile)" where
  "read_exact f n =
     (case f_read f n of (data, f') \<Rightarrow> if length data \<noteq> n then Inl EOFError else Inr (data, f'))"

section \<open>writer.py\<close>

text \<open>
  \<open>zlib.compress\<close> and \<open>zlib.decompress\<close> belong to the Python library; the writer and the
  reader take them as the parameters \<open>compress\<close> and \<open>decompress\<close> (\<open>None\<close> when zlib
  raises).
\<close>

definition SERIALIZERS :: "int \<Rightarrow> (pyval list \<Rightarrow> error + bytes) option" where
  "SERIALIZERS t =
     (if t = 0 then Some serialize_int32_column
      else if t = 1 then Some serialize_float64_column
      else if t = 2 then Some serialize_string_column
      else None)"

text \<open>The loop over \<open>enumerate(column_entries)\<close>: it returns the updated entries and the
  file as it stands, also when a round raises.  \<open>columns ! idx\<close> is within range, the
  entries having been zipped from \<open>columns\<close>.\<close>

fun write_columns ::
  "(bytes \<Rightarrow> bytes) \<Rightarrow> pyval list list \<Rightarrow> nat \<Rightarrow> column_entry list \<Rightarrow> pyfile
     \<Rightarrow> (error + column_entry list) \<times> pyfile" where
  "write_columns compress columns idx [] f = (Inr [], f)"
| "write_columns compress columns idx (entry # rest) f =
     (case SERIALIZERS (type_id entry) of
        None \<Rightarrow> (Inl (ValueError ''Unknown column type id''), f)
      | Some serializer \<Rightarrow>
          (case serializer (columns ! idx) of
             Inl e \<Rightarrow> (Inl e, f)
           | Inr uncompressed \<Rightarrow>
               let uncomp_size = length uncompressed;
                   compressed = compress uncompressed;
                   comp_size = length compressed;
                   block_offset = f_tell f;
                   f = f_write f compressed;
                   entry = entry\<lparr>offset := int block_offset, comp_size := int comp_size,
                                 uncomp_size := int uncomp_size\<rparr>
               in (case write_columns compress columns (Suc idx) rest f of
                     (Inl e, f) \<Rightarrow> (Inl e, f)
                   | (Inr entries, f) \<Rightarrow> (Inr (entry # entries), f))))"

text \<open>The body of \<open>with open(out_path, 'wb') as f\<close>, on the fresh empty file.\<close>

definition write_body ::
  "(bytes \<Rightarrow> bytes) \<Rightarrow> pyval list list \<Rightarrow> int \<Rightarrow> int \<Rightarrow> column_entry list \<Rightarrow> bytes
     \<Rightarrow> (error + unit) \<times> pyfile" where
  "write_body compress columns schema_signature total_rows column_entries initial_header =
     (let header_len = length initial_header;
          f = f_write \<lparr>fbytes = [], fpos = 0\<rparr> MAGIC
      in case pack_u8 VERSION of
           Inl e \<Rightarrow> (Inl e, f)
         | Inr b_version \<Rightarrow>
             let f = f_write f b_version;
                 f = f_write f (replicate 7 0)
             in (case pack_u64 (int header_len) of
                   Inl e \<Rightarrow> (Inl e, f)
                 | Inr b_len \<Rightarrow>
                     let f = f_write f b_len;
                         f = f_write f initial_header
                     in (case write_columns compress columns 0 column_entries f of
                           (Inl e, f) \<Rightarrow> (Inl e, f)
                         | (Inr column_entries, f) \<Rightarrow>
                             (case build_header schema_signature total_rows column_entries of
                                Inl e \<Rightarrow> (Inl e, f)
                              | Inr final_header \<Rightarrow>
                                  if length final_header \<noteq> header_len
                                  then (Inl (RuntimeError
                                    ''Header length changed between initial and final serialization.''), f)
                                  else let f = f_seek f HEADER_PREFIX_LEN;
                                           f = f_write f final_header
                                       in (Inr (), f)))))"

text \<open>\<open>write_cstm\<close> returns the outcome and the file system it leaves.  Until \<open>open\<close>
  the file system is untouched; from then on the path holds whatever was written,
  also when the body raises.\<close>

definition write_cstm ::
  "(bytes \<Rightarrow> bytes) \<Rightarrow> filesystem \<Rightarrow> string \<Rightarrow> pystr list \<Rightarrow> int list \<Rightarrow> pyval list list \<Rightarrow> int
     \<Rightarrow> (error + unit) \<times> filesystem" where
  "write_cstm compress fs out_path column_names column_types columns schema_signature =
     (if \<not> (length column_names = length column_types \<and> length column_types = length columns)
      then (Inl (ValueError ''column_names, column_types and columns must have same length''), fs)
      else
        let num_columns = length column_names;
            total_rows = (if num_columns > 0 then length (columns ! 0) else 0)
        in if num_columns > 0 \<and> list_ex (\<lambda>col. length col \<noteq> total_rows) columns
           then (Inl (ValueError ''Column length != expected''), fs)
           else
             let column_entries =
                   map (\<lambda>(name, t, col).
                          \<lparr>name = name, type_id = t, flags = 0, num_values = int (length col),
                           offset = 0, comp_size = 0, uncomp_size = 0\<rparr>)
                       (zip column_names (zip column_types columns))
             in (case build_header schema_signature (int total_rows) column_entries of
                   Inl e \<Rightarrow> (Inl e, fs)
                 | Inr initial_header \<Rightarrow>
                     (case write_body compress columns schema_signature (int total_rows)
                             column_entries initial_header of
                        (r, f) \<Rightarrow> (r, fs(out_path \<mapsto> fbytes f)))))"

section \<open>reader.py\<close>

definition PARSERS :: "int \<Rightarrow> (bytes \<Rightarrow> int \<Rightarrow> error + pyval list) option" where
  "PARSERS t =
     (if t = 0 then Some (\<lambda>data n. ebind (parse_int32_block data n) (\<lambda>out. Inr (map PyInt out)))
      else if t = 1
      then Some (\<lambda>data n. ebind (parse_float64_block data n) (\<lambda>out. Inr (map PyFloat out)))
      else if t = 2
      then Some (\<lambda>data n. ebind (parse_string_block data n) (\<lambda>out. Inr (map PyStr out)))
      else None)"

text \<open>The dictionary \<open>{col['name']: col for col in columns_meta}\<close>: a later column of
  the same name replaces an earlier one.\<close>

definition name_to_meta :: "column_entry list \<Rightarrow> (pystr \<rightharpoonup> column_entry)" where
  "name_to_meta columns_meta = fold (\<lambda>col m. m(name col \<mapsto> col)) columns_meta Map.empty"

fun select_metas :: "(pystr \<rightharpoonup> column_entry) \<Rightarrow> pystr list \<Rightarrow> error + column_entry list" where
  "select_metas m [] = Inr []"
| "select_metas m (n # ns) =
     (case m n of
        None \<Rightarrow> Inl (ValueError ''Requested column not found in file'')
      | Some col \<Rightarrow> ebind (select_metas m ns) (\<lambda>selected_meta. Inr (col # selected_meta)))"

text \<open>One round of the loop over \<open>selected_meta\<close>: the name with the parsed values, and
  the file handle after the round.  The offsets and sizes come from \<open>unpack_u64\<close> and
  are not negative.\<close>

definition read_column ::
  "(bytes \<Rightarrow> bytes option) \<Rightarrow> pyfile \<Rightarrow> column_entry
     \<Rightarrow> error + ((pystr \<times> pyval list) \<times> pyfile)" where
  "read_column decompress f col =
     (if comp_size col = 0 \<and> uncomp_size col = 0 then Inr ((name col, []), f)
      else
        let f = f_seek f (nat (offset col))
        in ebind (read_exact f (nat (comp_size col))) (\<lambda>(comp_bytes, f).
             case decompress comp_bytes of
               None \<Rightarrow> Inl (RuntimeError ''zlib decompression failed'')
             | Some uncompressed \<Rightarrow>
                 if int (length uncompressed) \<noteq> uncomp_size col
                 then Inl (RuntimeError ''Uncompressed size mismatch'')
                 else (case PARSERS (type_id col) of
                         None \<Rightarrow> Inl (ValueError ''Unknown column type'')
                       | Some parser \<Rightarrow>
                           ebind (parser uncompressed (num_values col)) (\<lambda>parsed_values.
                             Inr ((name col, parsed_values), f)))))"

fun read_columns ::
  "(bytes \<Rightarrow> bytes option) \<Rightarrow> pyfile \<Rightarrow> column_entry list
     \<Rightarrow> error + (pystr \<times> pyval list) list" where
  "read_columns decompress f [] = Inr []"
| "read_columns decompress f (col # rest) =
     ebind (read_column decompress f col) (\<lambda>(r, f).
       ebind (read_columns decompress f rest) (\<lambda>results_columns. Inr (r # results_columns)))"

text \<open>From the magic to the parsed header: the column entries and the file handle.\<close>

definition read_prefix_and_header :: "pyfile \<Rightarrow> error + (column_entry list \<times> pyfile)" where
  "read_prefix_and_header f =
     ebind (read_exact f 4) (\<lambda>(magic, f).
       if magic \<noteq> MAGIC then Inl (RuntimeError ''Bad magic: not a CSTM file'')
       else
         ebind (read_exact f 1) (\<lambda>(ver_b, f).
         ebind (read_exact f 7) (\<lambda>(reserved, f).
         ebind (read_exact f 8) (\<lambda>(header_len_bytes, f).
         ebind (unpack_u64 header_len_bytes) (\<lambda>header_len.
         ebind (read_exact f (nat header_len)) (\<lambda>(header_bytes, f).
         ebind (parse_header header_bytes) (\<lambda>(schema_sig, total_rows, columns_meta).
           Inr (columns_meta, f))))))))"

text \<open>The end of \<open>read_cstm\<close>: from the columns read to the names and the rows.\<close>

definition build_rows ::
  "(pystr \<times> pyval list) list \<Rightarrow> error + (pystr list \<times> pyval list list)" where
  "build_rows results_columns =
     (if length results_columns = 0 then Inr ([], [])
      else
        let col_names = map fst results_columns;
            cols_data = map snd results_columns;
            expected_len = length (cols_data ! 0)
        in if list_ex (\<lambda>arr. length arr \<noteq> expected_len) cols_data
           then Inl (RuntimeError ''Selected columns have differing lengths; file may be corrupt'')
           else Inr (col_names, map (\<lambda>i. map (\<lambda>arr. arr ! i) cols_data) [0..<expected_len]))"

definition read_cstm ::
  "(bytes \<Rightarrow> bytes option) \<Rightarrow> filesystem \<Rightarrow> string \<Rightarrow> pystr list option
     \<Rightarrow> error + (pystr list \<times> pyval list list)" where
  "read_cstm decompress fs path select_columns =
     (case fs path of
        None \<Rightarrow> Inl FileNotFoundError
      | Some b \<Rightarrow>
          ebind (read_prefix_and_header \<lparr>fbytes = b, fpos = 0\<rparr>) (\<lambda>(columns_meta, f).
            ebind (case select_columns of
                     None \<Rightarrow> Inr columns_meta
                   | Some sel \<Rightarrow> select_metas (name_to_meta columns_meta) sel) (\<lambda>selected_meta.
              ebind (read_columns decompress f selected_meta) build_rows)))"

section \<open>Notions used in the statements\<close>

text \<open>The signed 32-bit value that the four bytes of element \<open>i\<close> of a block encode.\<close>

definition i32_at :: "bytes \<Rightarrow> nat \<Rightarrow> int" where
  "i32_at data i = sint (word_of_int (le_int (slice data (4 * i) (4 * i + 4))) :: 32 word)"

text \<open>Entry \<open>i\<close> of the offsets table at the start of a STRING block, the data section
  behind a table of \<open>n + 1\<close> entries, and the decoding of the bytes that entries \<open>i\<close> and
  \<open>i + 1\<close> delimit in it.\<close>

definition u32_at :: "bytes \<Rightarrow> nat \<Rightarrow> int" where
  "u32_at data i = le_int (slice data (4 * i) (4 * i + 4))"

definition data_section :: "bytes \<Rightarrow> nat \<Rightarrow> bytes" where
  "data_section data n = drop (4 * (n + 1)) data"

definition string_at :: "bytes \<Rightarrow> nat \<Rightarrow> nat \<Rightarrow> error + pystr" where
  "string_at data n i =
     utf8_decode (slice (data_section data n) (nat (u32_at data i)) (nat (u32_at data (i + 1))))"

text \<open>The values a column of type \<open>t\<close> holds: an integer of the signed 32-bit range for
  INT32, a float for FLOAT64, a string of Unicode scalar values for STRING.\<close>

fun valid_value :: "int \<Rightarrow> pyval \<Rightarrow> bool" where
  "valid_value t (PyInt i) = (t = 0 \<and> I32_MIN \<le> i \<and> i \<le> I32_MAX)"
| "valid_value t (PyFloat x) = (t = 1)"
| "valid_value t (PyStr s) = (t = 2 \<and> list_all scalar_value s)"
| "valid_value t PyNone = False"

text \<open>The number of bytes of the UTF-8 encoding of a string.\<close>

definition utf8_char_len :: "nat \<Rightarrow> nat" where
  "utf8_char_len c = (if c < 0x80 then 1 else if c < 0x800 then 2 else if c < 0x10000 then 3 else 4)"

definition utf8_len :: "pystr \<Rightarrow> nat" where
  "utf8_len s = sum_list (map utf8_char_len s)"

text \<open>Two column entries that differ at most in \<open>offset\<close>, \<open>comp_size\<close> and \<open>uncomp_size\<close>,
  and an entry whose three block fields are unsigned 64-bit values.\<close>

definition same_schema_fields :: "column_entry \<Rightarrow> column_entry \<Rightarrow> bool" where
  "same_schema_fields e e' =
     (name e = name e' \<and> type_id e = type_id e' \<and> flags e = flags e'
      \<and> num_values e = num_values e')"

definition u64 :: "int \<Rightarrow> bool" where
  "u64 x = (0 \<le> x \<and> x < 2 ^ 64)"

definition block_fields_u64 :: "column_entry \<Rightarrow> bool" where
  "block_fields_u64 e = (u64 (offset e) \<and> u64 (comp_size e) \<and> u64 (uncomp_size e))"

text \<open>The column entries in the header of the file at a path, as \<open>read_cstm\<close> obtains
  them before it looks at the selection: a file is valid for the reader's first steps
  when this is a result.\<close>

definition file_columns :: "filesystem \<Rightarrow> string \<Rightarrow> error + column_entry list" where
  "file_columns fs path =
     (case fs path of
        None \<Rightarrow> Inl FileNotFoundError
      | Some b \<Rightarrow>
          ebind (read_prefix_and_header \<lparr>fbytes = b, fpos = 0\<rparr>) (\<lambda>(columns_meta, f).
            Inr columns_meta))"

text \<open>A file for the examples: the prefix and the header of one INT32 column \<open>id\<close> of
  three values.\<close>

definition example_header_file :: bytes where
  "example_header_file = [67, 83, 84, 77, 1, 0, 0, 0, 0, 0, 0, 0, 54, 0, 0, 0, 0, 0, 0, 0, 0, 0, 0, 0, 3, 0, 0, 0, 0, 0, 0, 0, 1, 0, 0, 0, 2, 0, 105, 100, 0, 0, 3, 0, 0, 0, 0, 0, 0, 0, 73, 0, 0, 0, 0, 0, 0, 0, 20, 0, 0, 0, 0, 0, 0, 0, 12, 0, 0, 0, 0, 0, 0, 0]"

text \<open>What a column reads back as: in a STRING column \<open>None\<close> is written as the empty
  string, so it reads back as one; every other value that can be written reads back as
  itself.  \<open>col_data_len\<close> is the length of the data section of a STRING column.\<close>

definition str_of :: "pyval \<Rightarrow> pystr" where
  "str_of v = (case v of PyStr s \<Rightarrow> s | _ \<Rightarrow> [])"

definition read_back :: "int \<Rightarrow> pyval list \<Rightarrow> pyval list" where
  "read_back t col = (if t = 2 then map (\<lambda>v. PyStr (str_of v)) col else col)"

definition col_data_len :: "pyval list \<Rightarrow> nat" where
  "col_data_len vs = sum_list (map (\<lambda>v. utf8_len (str_of v)) vs)"

text \<open>The uncompressed block of a column of type \<open>t\<close>: what its serializer returns (empty
  when there is no serializer or it raises).\<close>

definition encoded_column :: "int \<Rightarrow> pyval list \<Rightarrow> bytes" where
  "encoded_column t col =
     (case SERIALIZERS t of
        None \<Rightarrow> []
      | Some serializer \<Rightarrow> (case serializer col of Inl e \<Rightarrow> [] | Inr u \<Rightarrow> u))"

text \<open>The entry \<open>e\<close> describes the block of the column \<open>col\<close> within the part \<open>tail\<close> of a
  file that starts at position \<open>base\<close>: its sizes are those of the serialized and of the
  compressed column, and the compressed bytes stand at its offset.\<close>

definition block_in ::
  "(bytes \<Rightarrow> bytes) \<Rightarrow> bytes \<Rightarrow> nat \<Rightarrow> column_entry \<Rightarrow> pyval list \<Rightarrow> bool" where
  "block_in compress tail base e col =
     (\<exists>ser u k. SERIALIZERS (type_id e) = Some ser \<and> ser col = Inr u
        \<and> uncomp_size e = int (length u) \<and> comp_size e = int (length (compress u))
        \<and> offset e = int (base + k) \<and> k + length (compress u) \<le> length tail
        \<and> take (length (compress u)) (drop k tail) = compress u)"

text \<open>The entries that \<open>write_cstm\<close> builds first, with zero offset and sizes.\<close>

definition placeholder_entries ::
  "pystr list \<Rightarrow> int list \<Rightarrow> pyval list list \<Rightarrow> column_entry list" where
  "placeholder_entries column_names column_types columns =
     map (\<lambda>(name, t, col).
            \<lparr>name = name, type_id = t, flags = 0, num_values = int (length col),
             offset = 0, comp_size = 0, uncomp_size = 0\<rparr>)
         (zip column_names (zip column_types columns))"

text \<open>The 20 bytes before the header: magic, version, reserved bytes, header length.\<close>

definition cstm_prefix :: "nat \<Rightarrow> bytes" where
  "cstm_prefix header_len = MAGIC @ le_bytes 1 VERSION @ replicate 7 0 @ le_bytes 8 (int header_len)"

text \<open>The number of bytes of all compressed blocks of a table.\<close>

definition blocks_size :: "(bytes \<Rightarrow> bytes) \<Rightarrow> int list \<Rightarrow> pyval list list \<Rightarrow> nat" where
  "blocks_size compress column_types columns =
     sum_list (map (\<lambda>(t, col). length (compress (encoded_column t col)))
                 (zip column_types columns))"

section \<open>Properties\<close>

subsection \<open>Little-endian integers\<close>
lemma length_le_bytes [simp]: "length (le_bytes n x) = n"
  by (induction n arbitrary: x) simp_all

lemma le_int_le_bytes: "le_int (le_bytes n x) = x mod 256 ^ n"
proof (induction n arbitrary: x)
  case 0
  show ?case by simp
next
  case (Suc n)
  have "uint (word_of_int x :: byte) = x mod 256"
    by (simp add: uint_word_of_int)
  then have "le_int (le_bytes (Suc n) x) = x mod 256 + 256 * ((x div 256) mod 256 ^ n)"
    by (simp add: Suc.IH)
  also have "\<dots> = x mod (256 * 256 ^ n)"
    by (simp add: zmod_zmult2_eq)
  finally show ?case by simp
qed

lemma le_int_nonneg: "0 \<le> le_int b"
  by (induction b) simp_all

lemma le_int_less: "le_int b < 256 ^ length b"
proof (induction b)
  case Nil
  show ?case by simp
next
  case (Cons a b)
  have "uint a < 256" using uint_lt2p [of a] by simp
  with Cons show ?case by simp
qed

lemma slice_append_mid:
  "slice (pre @ b @ post) (length pre) (length pre + length b) = b"
  by (simp add: slice_def)

lemma sint_le_bytes4:
  assumes "- (2 ^ 31) \<le> x" "x < 2 ^ 31"
  shows "sint (word_of_int (le_int (le_bytes 4 x)) :: 32 word) = x"
proof -
  have "(word_of_int (x mod 256 ^ 4) :: 32 word) = word_of_int x"
    by (simp add: word_of_int_eq_iff take_bit_eq_mod)
  moreover have "sint (word_of_int x :: 32 word) = x"
    using assms by (simp add: sint_sbintrunc' signed_take_bit_int_eq_self)
  ultimately show ?thesis by (simp add: le_int_le_bytes)
qed

lemma unpack_i32_pack: "- (2 ^ 31) \<le> x \<Longrightarrow> x < 2 ^ 31 \<Longrightarrow> unpack_i32 (le_bytes 4 x) = Inr x"
  using sint_le_bytes4 [of x] by (simp add: unpack_i32_def)

lemma unpack_f64_pack: "unpack_f64 (pack_f64 w) = Inr w"
proof -
  have "uint w mod 256 ^ 8 = uint w"
    using uint_lt2p [of w] by (simp add: uint_nonnegative)
  then show ?thesis
    by (simp add: unpack_f64_def pack_f64_def le_int_le_bytes)
qed

lemma unpack_uint_pack: "0 \<le> x \<Longrightarrow> x < 256 ^ n \<Longrightarrow> unpack_uint n (le_bytes n x) = Inr x"
  by (simp add: unpack_uint_def le_int_le_bytes)

subsection \<open>UTF-8: decoding what was encoded\<close>

lemma unat_byte: "x < 256 \<Longrightarrow> unat (of_nat x :: byte) = x"
  by (simp add: unat_of_nat)

lemma three_byte_ranges:
  fixes c :: nat
  assumes "0x800 \<le> c" "c < 0x10000" "\<not> (0xD800 \<le> c \<and> c \<le> 0xDFFF)"
  shows "c div 4096 = 0 \<longrightarrow> 0x20 \<le> c div 64 mod 64"
    and "c div 4096 = 13 \<longrightarrow> c div 64 mod 64 \<le> 0x1F"
    and "c div 4096 \<le> 15"
proof -
  define d where "d = c div 64"
  define q where "q = d div 64"
  define r where "r = d mod 64"
  have e: "c div 4096 = q" by (simp add: q_def d_def div_mult2_eq)
  have dq: "d = q * 64 + r" by (simp add: q_def r_def)
  have r64: "r < 64" by (simp add: r_def)
  have dlo: "32 \<le> d" using assms(1) by (simp add: d_def less_eq_div_iff_mult_less_eq)
  have dhi: "d < 1024" using assms(2) by (simp add: d_def div_less_iff_less_mult)
  have ns: "\<not> (864 \<le> d \<and> d < 896)"
    using assms(3) by (auto simp: d_def less_eq_div_iff_mult_less_eq div_less_iff_less_mult)
  show "c div 4096 = 0 \<longrightarrow> 0x20 \<le> c div 64 mod 64"
    unfolding e d_def [symmetric] r_def [symmetric] using dlo dq by auto
  show "c div 4096 = 13 \<longrightarrow> c div 64 mod 64 \<le> 0x1F"
    unfolding e d_def [symmetric] r_def [symmetric] using ns dq r64 by auto
  show "c div 4096 \<le> 15"
    unfolding e using dhi dq by linarith
qed

lemma four_byte_ranges:
  fixes c :: nat
  assumes "0x10000 \<le> c" "c < 0x110000"
  shows "c div 262144 = 0 \<longrightarrow> 0x10 \<le> c div 4096 mod 64"
    and "c div 262144 = 4 \<longrightarrow> c div 4096 mod 64 \<le> 0x0F"
    and "c div 262144 \<le> 4"
proof -
  define d where "d = c div 4096"
  define q where "q = d div 64"
  define r where "r = d mod 64"
  have e: "c div 262144 = q" by (simp add: q_def d_def div_mult2_eq)
  have dq: "d = q * 64 + r" by (simp add: q_def r_def)
  have dlo: "16 \<le> d" using assms(1) by (simp add: d_def less_eq_div_iff_mult_less_eq)
  have dhi: "d < 272" using assms(2) by (simp add: d_def div_less_iff_less_mult)
  show "c div 262144 = 0 \<longrightarrow> 0x10 \<le> c div 4096 mod 64"
    unfolding e d_def [symmetric] r_def [symmetric] using dlo dq by auto
  show "c div 262144 = 4 \<longrightarrow> c div 4096 mod 64 \<le> 0x0F"
    unfolding e d_def [symmetric] r_def [symmetric] using dhi dq by auto
  show "c div 262144 \<le> 4"
    unfolding e using dhi dq by linarith
qed

lemma two_byte_ranges:
  fixes c :: nat
  assumes "0x80 \<le> c" "c < 0x800"
  shows "2 \<le> c div 64" and "c div 64 \<le> 31"
  using assms by (simp_all add: less_eq_div_iff_mult_less_eq div_le_mono flip: less_Suc_eq_le add: div_less_iff_less_mult)

lemma recompose3: "(c::nat) div 4096 * 4096 + c div 64 mod 64 * 64 + c mod 64 = c"
proof -
  define d where "d = c div 64"
  define q where "q = d div 64"
  define r where "r = d mod 64"
  have e: "c div 4096 = q" by (simp add: q_def d_def div_mult2_eq)
  have dq: "d = q * 64 + r" by (simp add: q_def r_def)
  have cd: "c = d * 64 + c mod 64" by (simp add: d_def)
  have "q * 4096 + r * 64 + c mod 64 = c" using dq cd by linarith
  then show ?thesis by (simp add: e r_def d_def)
qed

lemma recompose4:
  "(c::nat) div 262144 * 262144 + c div 4096 mod 64 * 4096 + c div 64 mod 64 * 64 + c mod 64 = c"
proof -
  define d where "d = c div 4096"
  define q where "q = d div 64"
  define r where "r = d mod 64"
  have e: "c div 262144 = q" by (simp add: q_def d_def div_mult2_eq)
  have dq: "d = q * 64 + r" by (simp add: q_def r_def)
  have "q * 262144 + r * 4096 + c div 64 mod 64 * 64 + c mod 64 = d * 4096 + c div 64 mod 64 * 64 + c mod 64"
    using dq by linarith
  also have "\<dots> = c" unfolding d_def by (rule recompose3)
  finally show ?thesis by (simp add: e r_def d_def)
qed

lemma utf8_decode_nat_2:
  assumes "0xC2 \<le> b0" "b0 \<le> 0xDF" "0x80 \<le> b1" "b1 \<le> 0xBF"
  shows "utf8_decode_nat (b0 # b1 # rest) =
         ebind (utf8_decode_nat rest) (\<lambda>s. Inr (((b0 - 0xC0) * 64 + (b1 - 0x80)) # s))"
  using assms by (simp add: is_cont_def)

lemma utf8_decode_nat_3:
  assumes "0xE0 \<le> b0" "b0 \<le> 0xEF" "0x80 \<le> b1" "b1 \<le> 0xBF" "0x80 \<le> b2" "b2 \<le> 0xBF"
    and "b0 = 0xE0 \<longrightarrow> 0xA0 \<le> b1" "b0 = 0xED \<longrightarrow> b1 \<le> 0x9F"
  shows "utf8_decode_nat (b0 # b1 # b2 # rest) =
         ebind (utf8_decode_nat rest)
           (\<lambda>s. Inr (((b0 - 0xE0) * 4096 + (b1 - 0x80) * 64 + (b2 - 0x80)) # s))"
  using assms by (simp add: is_cont_def)

lemma utf8_decode_nat_4:
  assumes "0xF0 \<le> b0" "b0 \<le> 0xF4" "0x80 \<le> b1" "b1 \<le> 0xBF" "0x80 \<le> b2" "b2 \<le> 0xBF"
    and "0x80 \<le> b3" "b3 \<le> 0xBF"
    and "b0 = 0xF0 \<longrightarrow> 0x90 \<le> b1" "b0 = 0xF4 \<longrightarrow> b1 \<le> 0x8F"
  shows "utf8_decode_nat (b0 # b1 # b2 # b3 # rest) =
         ebind (utf8_decode_nat rest)
           (\<lambda>s. Inr (((b0 - 0xF0) * 262144 + (b1 - 0x80) * 4096 + (b2 - 0x80) * 64
                        + (b3 - 0x80)) # s))"
  using assms by (simp add: is_cont_def)

lemma utf8_decode_encode_char:
  assumes "scalar_value c" "utf8_encode_char c = Inr b"
  shows "utf8_decode_nat (map unat b @ rest) = ebind (utf8_decode_nat rest) (\<lambda>s. Inr (c # s))"
proof -
  define m0 where "m0 = c mod 64"
  define m1 where "m1 = c div 64 mod 64"
  define m2 where "m2 = c div 4096 mod 64"
  have m: "m0 \<le> 63" "m1 \<le> 63" "m2 \<le> 63"
    by (simp_all add: m0_def m1_def m2_def flip: less_Suc_eq_le)
  consider "c < 0x80" | "0x80 \<le> c \<and> c < 0x800" | "0x800 \<le> c \<and> c < 0x10000"
    | "0x10000 \<le> c \<and> c < 0x110000"
    using assms(1) unfolding scalar_value_def by linarith
  then show ?thesis
  proof cases
    case 1
    then show ?thesis using assms(2) by (auto simp: utf8_encode_char_def unat_byte)
  next
    case 2
    define q where "q = c div 64"
    have b: "b = [of_nat (0xC0 + q), of_nat (0x80 + m0)]"
      using assms(2) 2 by (auto simp: utf8_encode_char_def q_def m0_def)
    have r: "2 \<le> q" "q \<le> 31"
      using two_byte_ranges [of c] 2 by (simp_all add: q_def)
    have "0xC0 + q < 256" "0x80 + m0 < 256" using r m by linarith+
    then have u: "map unat b = [0xC0 + q, 0x80 + m0]"
      by (simp only: b list.map unat_byte)
    have v: "(0xC0 + q - 0xC0) * 64 + (0x80 + m0 - 0x80) = c"
      by (simp add: q_def m0_def)
    have "utf8_decode_nat ((0xC0 + q) # (0x80 + m0) # rest) =
          ebind (utf8_decode_nat rest)
            (\<lambda>s. Inr (((0xC0 + q - 0xC0) * 64 + (0x80 + m0 - 0x80)) # s))"
      by (rule utf8_decode_nat_2) (use r m in linarith)+
    then show ?thesis by (simp only: u v append_Cons append_Nil)
  next
    case 3
    then have ns: "\<not> (0xD800 \<le> c \<and> c \<le> 0xDFFF)"
      using assms(1) by (auto simp: scalar_value_def)
    define q where "q = c div 4096"
    have b: "b = [of_nat (0xE0 + q), of_nat (0x80 + m1), of_nat (0x80 + m0)]"
      using assms(2) 3 ns by (auto simp: utf8_encode_char_def q_def m0_def m1_def)
    have r: "q = 0 \<longrightarrow> 0x20 \<le> m1" "q = 13 \<longrightarrow> m1 \<le> 0x1F" "q \<le> 15"
      using three_byte_ranges [of c] 3 ns by (simp_all add: q_def m1_def)
    have "0xE0 + q < 256" "0x80 + m1 < 256" "0x80 + m0 < 256" using r m by linarith+
    then have u: "map unat b = [0xE0 + q, 0x80 + m1, 0x80 + m0]"
      by (simp only: b list.map unat_byte)
    have v: "(0xE0 + q - 0xE0) * 4096 + (0x80 + m1 - 0x80) * 64 + (0x80 + m0 - 0x80) = c"
      using recompose3 [of c] by (simp add: q_def m0_def m1_def)
    have "utf8_decode_nat ((0xE0 + q) # (0x80 + m1) # (0x80 + m0) # rest) =
          ebind (utf8_decode_nat rest)
            (\<lambda>s. Inr (((0xE0 + q - 0xE0) * 4096 + (0x80 + m1 - 0x80) * 64
                         + (0x80 + m0 - 0x80)) # s))"
      by (rule utf8_decode_nat_3) (use r m in linarith)+
    then show ?thesis by (simp only: u v append_Cons append_Nil)
  next
    case 4
    define q where "q = c div 262144"
    have b: "b = [of_nat (0xF0 + q), of_nat (0x80 + m2), of_nat (0x80 + m1), of_nat (0x80 + m0)]"
      using assms(2) 4 by (auto simp: utf8_encode_char_def q_def m0_def m1_def m2_def)
    have r: "q = 0 \<longrightarrow> 0x10 \<le> m2" "q = 4 \<longrightarrow> m2 \<le> 0x0F" "q \<le> 4"
      using four_byte_ranges [of c] 4 by (simp_all add: q_def m2_def)
    have "0xF0 + q < 256" "0x80 + m2 < 256" "0x80 + m1 < 256" "0x80 + m0 < 256"
      using r m by linarith+
    then have u: "map unat b = [0xF0 + q, 0x80 + m2, 0x80 + m1, 0x80 + m0]"
      by (simp only: b list.map unat_byte)
    have v: "(0xF0 + q - 0xF0) * 262144 + (0x80 + m2 - 0x80) * 4096 + (0x80 + m1 - 0x80) * 64
             + (0x80 + m0 - 0x80) = c"
      using recompose4 [of c] by (simp add: q_def m0_def m1_def m2_def)
    have "utf8_decode_nat ((0xF0 + q) # (0x80 + m2) # (0x80 + m1) # (0x80 + m0) # rest) =
          ebind (utf8_decode_nat rest)
            (\<lambda>s. Inr (((0xF0 + q - 0xF0) * 262144 + (0x80 + m2 - 0x80) * 4096
                         + (0x80 + m1 - 0x80) * 64 + (0x80 + m0 - 0x80)) # s))"
      by (rule utf8_decode_nat_4) (use r m in linarith)+
    then show ?thesis by (simp only: u v append_Cons append_Nil)
  qed
qed

lemma utf8_encode_ok:
  "list_all scalar_value s \<Longrightarrow> \<exists>b. utf8_encode s = Inr b"
proof (induction s)
  case Nil
  show ?case by simp
next
  case (Cons c s)
  then have "\<exists>b. utf8_encode_char c = Inr b"
    by (auto simp: utf8_encode_char_def scalar_value_def)
  with Cons show ?case by auto
qed

lemma utf8_decode_encode_append:
  "list_all scalar_value s \<Longrightarrow> utf8_encode s = Inr b \<Longrightarrow>
   utf8_decode_nat (map unat b @ rest) = ebind (utf8_decode_nat rest) (\<lambda>t. Inr (s @ t))"
proof (induction s arbitrary: b)
  case Nil
  have "ebind (utf8_decode_nat rest) Inr = utf8_decode_nat rest"
    by (cases "utf8_decode_nat rest") simp_all
  with Nil show ?case by simp
next
  case (Cons c s)
  from Cons.prems obtain bc bs where bc: "utf8_encode_char c = Inr bc"
    and bs: "utf8_encode s = Inr bs" and b: "b = bc @ bs"
    by (cases "utf8_encode_char c"; cases "utf8_encode s") auto
  from Cons.prems have sc: "scalar_value c" and ss: "list_all scalar_value s" by simp_all
  have "utf8_decode_nat (map unat b @ rest) = utf8_decode_nat (map unat bc @ (map unat bs @ rest))"
    by (simp add: b)
  also have "\<dots> = ebind (utf8_decode_nat (map unat bs @ rest)) (\<lambda>t. Inr (c # t))"
    by (rule utf8_decode_encode_char [OF sc bc])
  also have "\<dots> = ebind (utf8_decode_nat rest) (\<lambda>t. Inr ((c # s) @ t))"
    by (cases "utf8_decode_nat rest") (simp_all add: Cons.IH [OF ss bs])
  finally show ?case .
qed

lemma utf8_decode_encode:
  "list_all scalar_value s \<Longrightarrow> utf8_encode s = Inr b \<Longrightarrow> utf8_decode b = Inr s"
  using utf8_decode_encode_append [of s b "[]"] by (simp add: utf8_decode_def)

subsection \<open>Sequencing and slices\<close>

lemma ebind_Inr_iff: "ebind m f = Inr y \<longleftrightarrow> (\<exists>x. m = Inr x \<and> f x = Inr y)"
  by (cases m) simp_all

lemma ebind_Inl_iff: "ebind m f = Inl e \<longleftrightarrow> m = Inl e \<or> (\<exists>x. m = Inr x \<and> f x = Inl e)"
  by (cases m) simp_all

lemma slice_length: "j \<le> length xs \<Longrightarrow> i \<le> j \<Longrightarrow> length (slice xs i j) = j - i"
  by (simp add: slice_def)

lemma map_upt_shift: "map f [0..<Suc n] = f 0 # map (\<lambda>i. f (Suc i)) [0..<n]"
  by (simp add: upt_conv_Cons map_Suc_upt [symmetric] del: upt_Suc)

lemma int32_loop_closed:
  "off + 4 * n \<le> length data \<Longrightarrow>
   int32_loop data off n =
     Inr (map (\<lambda>i. sint (word_of_int (le_int (slice data (off + 4 * i) (off + 4 * i + 4))) :: 32 word))
            [0..<n])"
proof (induction n arbitrary: off)
  case 0
  show ?case by simp
next
  case (Suc n)
  have len: "length (slice data off (off + 4)) = 4"
    using Suc.prems by (simp add: slice_def)
  have "off + 4 + 4 * n \<le> length data" using Suc.prems by simp
  note IH = Suc.IH [OF this]
  show ?case
    unfolding map_upt_shift
    by (simp add: IH unpack_i32_def len SIZE_I32_def add.assoc del: upt_Suc)
qed

subsection \<open>INT32 blocks\<close>

text \<open>
  C7.  For every byte block \<open>data\<close> and every element count \<open>nv\<close>: when the block has
  exactly \<open>4 * nv\<close> bytes, \<open>parse_int32_block\<close> returns a list of \<open>nv\<close> integers, each
  within the signed 32-bit range and each the little-endian value of its four bytes; for
  every other block length it raises a \<open>ValueError\<close>.  A result is never shorter or longer
  than \<open>nv\<close>.
\<close>

theorem parse_int32_block_exact_length:
  "(int (length data) = 4 * nv \<longrightarrow>
      (\<exists>out. parse_int32_block data nv = Inr out
         \<and> int (length out) = nv
         \<and> (\<forall>v \<in> set out. - (2 ^ 31) \<le> v \<and> v < 2 ^ 31)
         \<and> (\<forall>i < length out. out ! i = i32_at data i)))
   \<and> (int (length data) \<noteq> 4 * nv \<longrightarrow>
        (\<exists>msg. parse_int32_block data nv = Inl (ValueError msg)))"
proof (intro conjI impI)
  assume len: "int (length data) = 4 * nv"
  then have n: "0 + 4 * nat nv \<le> length data" by linarith
  define out where "out = map (i32_at data) [0..<nat nv]"
  have "parse_int32_block data nv = int32_loop data 0 (nat nv)"
    using len by (simp add: parse_int32_block_def SIZE_I32_def)
  also have "\<dots> = Inr out"
    unfolding int32_loop_closed [OF n] out_def i32_at_def by simp
  finally have p: "parse_int32_block data nv = Inr out" .
  have l: "int (length out) = nv" using len by (simp add: out_def)
  have r: "- (2 ^ 31) \<le> i32_at data i \<and> i32_at data i < 2 ^ 31" for i
    using sint_ge [of "word_of_int (le_int (slice data (4 * i) (4 * i + 4))) :: 32 word"]
      sint_lt [of "word_of_int (le_int (slice data (4 * i) (4 * i + 4))) :: 32 word"]
    by (simp add: i32_at_def)
  have b: "\<forall>v \<in> set out. - (2 ^ 31) \<le> v \<and> v < 2 ^ 31"
    unfolding out_def using r by auto
  have e: "\<forall>i < length out. out ! i = i32_at data i"
    by (simp add: out_def)
  show "\<exists>out. parse_int32_block data nv = Inr out
         \<and> int (length out) = nv
         \<and> (\<forall>v \<in> set out. - (2 ^ 31) \<le> v \<and> v < 2 ^ 31)
         \<and> (\<forall>i < length out. out ! i = i32_at data i)"
    using p l b e by blast
next
  assume "int (length data) \<noteq> 4 * nv"
  then show "\<exists>msg. parse_int32_block data nv = Inl (ValueError msg)"
    by (simp add: parse_int32_block_def SIZE_I32_def)
qed

theorem parse_int32_block_exact_length_witness:
  "(\<exists>out. parse_int32_block [0xFE, 0xFF, 0xFF, 0xFF, 0x2A, 0, 0, 0] 2 = Inr out
      \<and> int (length out) = 2
      \<and> (\<forall>v \<in> set out. - (2 ^ 31) \<le> v \<and> v < 2 ^ 31)
      \<and> (\<forall>i < length out. out ! i = i32_at [0xFE, 0xFF, 0xFF, 0xFF, 0x2A, 0, 0, 0] i))
   \<and> (\<exists>msg. parse_int32_block [0xFE, 0xFF, 0xFF] 2 = Inl (ValueError msg))"
  using parse_int32_block_exact_length [of "[0xFE, 0xFF, 0xFF, 0xFF, 0x2A, 0, 0, 0]" 2] parse_int32_block_exact_length [of "[0xFE, 0xFF, 0xFF]" 2]
  by simp

subsection \<open>Empty columns\<close>

text \<open>
  C9.  An empty column of each type encodes, and the encoding decodes with element count 0
  to the empty list.  For STRING the block is the four bytes of the u32 zero, one offsets
  entry followed by an empty data section.
\<close>

theorem empty_column_roundtrip:
  "serialize_int32_column [] = Inr [] \<and> parse_int32_block [] 0 = Inr []
   \<and> serialize_float64_column [] = Inr [] \<and> parse_float64_block [] 0 = Inr []
   \<and> serialize_string_column [] = Inr [0, 0, 0, 0] \<and> pack_u32 0 = Inr [0, 0, 0, 0]
   \<and> parse_string_block [0, 0, 0, 0] 0 = Inr []"
  by (simp add: parse_int32_block_def parse_float64_block_def serialize_string_column_def
      pack_u32_def pack_uint_def UINT32_MAX_def numeral_eq_Suc parse_string_block_def
      SIZE_U32_def slice_from_def unpack_u32_def unpack_uint_def slice_def)

subsection \<open>Blocks of floats and strings\<close>

lemma u32_loop_closed:
  "off + 4 * n \<le> length data \<Longrightarrow>
   u32_loop data off n =
     Inr (map (\<lambda>i. le_int (slice data (off + 4 * i) (off + 4 * i + 4))) [0..<n])"
proof (induction n arbitrary: off)
  case 0
  show ?case by simp
next
  case (Suc n)
  have len: "length (slice data off (off + 4)) = 4"
    using Suc.prems by (simp add: slice_def)
  have "off + 4 + 4 * n \<le> length data" using Suc.prems by simp
  note IH = Suc.IH [OF this]
  show ?case
    unfolding map_upt_shift
    by (simp add: IH unpack_u32_def unpack_uint_def len SIZE_U32_def add.assoc del: upt_Suc)
qed

lemma float64_loop_closed:
  "off + 8 * n \<le> length data \<Longrightarrow>
   float64_loop data off n =
     Inr (map (\<lambda>i. word_of_int (le_int (slice data (off + 8 * i) (off + 8 * i + 8)))) [0..<n])"
proof (induction n arbitrary: off)
  case 0
  show ?case by simp
next
  case (Suc n)
  have len: "length (slice data off (off + 8)) = 8"
    using Suc.prems by (simp add: slice_def)
  have "off + 8 + 8 * n \<le> length data" using Suc.prems by simp
  note IH = Suc.IH [OF this]
  show ?case
    unfolding map_upt_shift
    by (simp add: IH unpack_f64_def len SIZE_F64_def add.assoc del: upt_Suc)
qed

lemma utf8_decode_nat_error: "utf8_decode_nat bs = Inl e \<Longrightarrow> e = UnicodeDecodeError"
proof (induction bs rule: length_induct)
  case (1 bs)
  then have IH: "\<And>ys. utf8_decode_nat ys = Inl e \<Longrightarrow> length ys < length bs \<Longrightarrow> e = UnicodeDecodeError"
    by blast
  show ?case
  proof (cases bs)
    case Nil
    with "1.prems" show ?thesis by simp
  next
    case (Cons b0 bs')
    with "1.prems" show ?thesis
      by (auto simp: ebind_Inl_iff split: if_splits list.splits dest: IH)
  qed
qed

lemma utf8_decode_error: "utf8_decode b = Inl e \<Longrightarrow> e = UnicodeDecodeError"
  by (simp add: utf8_decode_def utf8_decode_nat_error)

lemma strings_loop_ok:
  "length strs = n \<Longrightarrow>
   (\<forall>j<n. offs ! (i + j) \<le> offs ! (i + j + 1)
      \<and> utf8_decode (slice ds (nat (offs ! (i + j))) (nat (offs ! (i + j + 1)))) = Inr (strs ! j)) \<Longrightarrow>
   strings_loop ds offs i n = Inr strs"
proof (induction n arbitrary: i strs)
  case 0
  then show ?case by simp
next
  case (Suc n)
  from Suc.prems(1) obtain s rest where strs: "strs = s # rest" and lr: "length rest = n"
    by (cases strs) auto
  have h0: "offs ! i \<le> offs ! (i + 1)"
    "utf8_decode (slice ds (nat (offs ! i)) (nat (offs ! (i + 1)))) = Inr s"
    using Suc.prems(2) [rule_format, of 0] by (simp_all add: strs)
  have "\<forall>j<n. offs ! (Suc i + j) \<le> offs ! (Suc i + j + 1)
      \<and> utf8_decode (slice ds (nat (offs ! (Suc i + j))) (nat (offs ! (Suc i + j + 1)))) = Inr (rest ! j)"
    using Suc.prems(2) [rule_format, of "Suc j" for j] by (simp add: strs)
  from Suc.IH [OF lr this] h0 show ?case by (simp add: strs)
qed

lemma strings_loop_bad:
  "\<exists>j<n. offs ! (i + j) > offs ! (i + j + 1) \<Longrightarrow>
   \<exists>e. strings_loop ds offs i n = Inl e \<and> is_ValueError e"
proof (induction n arbitrary: i)
  case 0
  then show ?case by simp
next
  case (Suc n)
  show ?case
  proof (cases "offs ! i > offs ! (i + 1)")
    case True
    then show ?thesis by simp
  next
    case False
    with Suc.prems obtain j where j: "j < Suc n" "offs ! (i + j) > offs ! (i + j + 1)" "j \<noteq> 0"
      by (metis add.right_neutral)
    then obtain k where k: "j = Suc k" by (cases j) auto
    with j have "\<exists>k<n. offs ! (Suc i + k) > offs ! (Suc i + k + 1)" by auto
    from Suc.IH [OF this] obtain e where e: "strings_loop ds offs (Suc i) n = Inl e" "is_ValueError e"
      by blast
    show ?thesis
    proof (cases "utf8_decode (slice ds (nat (offs ! i)) (nat (offs ! (i + 1))))")
      case (Inl e')
      then have "e' = UnicodeDecodeError" by (rule utf8_decode_error)
      with Inl False show ?thesis by simp
    next
      case (Inr s)
      with False e show ?thesis by simp
    qed
  qed
qed

lemma parse_string_block_unfold:
  assumes "0 \<le> nv" "4 * (nat nv + 1) \<le> length data"
  shows "parse_string_block data nv =
     (if u32_at data (nat nv) > int (length (data_section data (nat nv)))
      then Inl (ValueError ''Last offset exceeds data section length'')
      else strings_loop (data_section data (nat nv)) (map (u32_at data) [0..<nat nv + 1]) 0 (nat nv))"
proof -
  define n where "n = nat nv"
  have nv: "nv = int n" using assms(1) by (simp add: n_def)
  have len: "0 + 4 * (n + 1) \<le> length data" using assms(2) by (simp add: n_def)
  have offs: "u32_loop data 0 (n + 1) = Inr (map (u32_at data) [0..<n + 1])"
    unfolding u32_loop_closed [OF len] u32_at_def by simp
  have nn: "nat (int n + 1) = n + 1" by simp
  have ds: "slice_from data ((int n + 1) * int SIZE_U32) = data_section data n"
    by (simp add: slice_from_def data_section_def SIZE_U32_def nat_add_distrib nat_mult_distrib
        ac_simps)
  have small: "\<not> int (length data) < (int n + 1) * int SIZE_U32"
    using len by (simp add: SIZE_U32_def)
  have last: "last (map (u32_at data) [0..<n + 1]) = u32_at data n" by simp
  have ne: "map (u32_at data) [0..<n + 1] \<noteq> []" by simp
  show ?thesis
    unfolding parse_string_block_def Let_def nv nn offs ds n_def [symmetric] nat_int
    using small ne by (simp only: if_False ebind.simps last if_cancel split: if_splits)
qed

lemma u32_loop_numeral:
  "u32_loop data off (numeral k) =
     ebind (unpack_u32 (slice data off (off + SIZE_U32))) (\<lambda>val.
       ebind (u32_loop data (off + SIZE_U32) (pred_numeral k)) (\<lambda>offsets. Inr (val # offsets)))"
  by (simp add: numeral_eq_Suc)

lemma strings_loop_numeral:
  "strings_loop ds offsets i (numeral k) =
     (let s_off = offsets ! i; s_end = offsets ! (i + 1)
      in if s_off > s_end then Inl (ValueError ''Invalid offsets'')
         else ebind (utf8_decode (slice ds (nat s_off) (nat s_end))) (\<lambda>s.
           ebind (strings_loop ds offsets (i + 1) (pred_numeral k)) (\<lambda>out. Inr (s # out))))"
  by (simp add: numeral_eq_Suc)

text \<open>
  C8, as stated, fails: the block \<open>00 00 00 00 01 00 00 00 FF\<close> with one element is long
  enough for its offsets table, its offsets 0 and 1 are ordered and within the one byte of
  data, and yet \<open>parse_string_block\<close> returns no strings: the byte \<open>FF\<close> is not UTF-8 and
  \<open>raw.decode('utf-8')\<close> raises.
\<close>

theorem parse_string_block_undecodable_counterexample:
  "\<not> int (length [0, 0, 0, 0, 1, 0, 0, 0, 0xFF :: byte]) < 4 * (1 + 1)
   \<and> \<not> u32_at [0, 0, 0, 0, 1, 0, 0, 0, 0xFF] 1
        > int (length (data_section [0, 0, 0, 0, 1, 0, 0, 0, 0xFF] 1))
   \<and> \<not> u32_at [0, 0, 0, 0, 1, 0, 0, 0, 0xFF] 0 > u32_at [0, 0, 0, 0, 1, 0, 0, 0, 0xFF] 1
   \<and> parse_string_block [0, 0, 0, 0, 1, 0, 0, 0, 0xFF] 1 = Inl UnicodeDecodeError"
  by (simp add: u32_at_def data_section_def slice_def parse_string_block_def SIZE_U32_def
      unpack_u32_def unpack_uint_def slice_from_def u32_loop_numeral utf8_decode_def)

text \<open>
  C8, amended.  For every byte block and element count \<open>nv \<ge> 0\<close>, \<open>parse_string_block\<close>
  raises a \<open>ValueError\<close> when the block is shorter than the \<open>(nv + 1) * 4\<close> bytes of the
  offsets table, and when the final offset exceeds the length of the data section; it
  raises a \<open>ValueError\<close> or its subclass \<open>UnicodeDecodeError\<close> when some offset exceeds its
  successor.  When none of these hold and the bytes between each two consecutive offsets
  are well-formed UTF-8, it returns the \<open>nv\<close> strings they decode to.
\<close>

theorem parse_string_block_checks:
  assumes nv: "0 \<le> nv"
  shows "(int (length data) < 4 * (nv + 1) \<longrightarrow>
            (\<exists>msg. parse_string_block data nv = Inl (ValueError msg)))
       \<and> (u32_at data (nat nv) > int (length (data_section data (nat nv))) \<longrightarrow>
            (\<exists>msg. parse_string_block data nv = Inl (ValueError msg)))
       \<and> ((\<exists>i < nat nv. u32_at data i > u32_at data (i + 1)) \<longrightarrow>
            (\<exists>e. parse_string_block data nv = Inl e \<and> is_ValueError e))
       \<and> (\<not> int (length data) < 4 * (nv + 1)
            \<and> \<not> u32_at data (nat nv) > int (length (data_section data (nat nv)))
            \<and> \<not> (\<exists>i < nat nv. u32_at data i > u32_at data (i + 1))
            \<and> length strs = nat nv
            \<and> (\<forall>i < nat nv. string_at data (nat nv) i = Inr (strs ! i))
            \<longrightarrow> parse_string_block data nv = Inr strs)"
proof -
  define n where "n = nat nv"
  have short: "\<exists>msg. parse_string_block data nv = Inl (ValueError msg)"
    if "int (length data) < 4 * (nv + 1)"
    using that by (simp add: parse_string_block_def SIZE_U32_def mult.commute)
  have long: "4 * (nat nv + 1) \<le> length data" if "\<not> int (length data) < 4 * (nv + 1)"
  proof -
    have "int (4 * (nat nv + 1)) = 4 * (nv + 1)" using nv by simp
    with that show ?thesis by linarith
  qed
  note unf = parse_string_block_unfold [OF nv long]
  have nth: "map (u32_at data) [0..<n + 1] ! j = u32_at data j" if "j \<le> n" for j
    using that by (simp add: nth_append less_Suc_eq_le del: upt_Suc)
  have p2: "\<exists>msg. parse_string_block data nv = Inl (ValueError msg)"
    if "u32_at data (nat nv) > int (length (data_section data (nat nv)))"
  proof (cases "int (length data) < 4 * (nv + 1)")
    case True
    then show ?thesis by (rule short)
  next
    case False
    from unf [OF False] that show ?thesis by simp
  qed
  have p3: "\<exists>e. parse_string_block data nv = Inl e \<and> is_ValueError e"
    if bad: "\<exists>i < nat nv. u32_at data i > u32_at data (i + 1)"
  proof (cases "int (length data) < 4 * (nv + 1)")
    case True
    from short [OF True] show ?thesis by auto
  next
    case False
    show ?thesis
    proof (cases "u32_at data (nat nv) > int (length (data_section data (nat nv)))")
      case True
      from p2 [OF True] show ?thesis by auto
    next
      case last_ok: False
      from bad obtain i where i: "i < n" "u32_at data i > u32_at data (i + 1)"
        by (auto simp: n_def)
      have "\<exists>j<n. map (u32_at data) [0..<n + 1] ! (0 + j) > map (u32_at data) [0..<n + 1] ! (0 + j + 1)"
        using i nth [of i] nth [of "i + 1"] by (intro exI [of _ i]) simp
      from strings_loop_bad [OF this, of "data_section data n"]
      show ?thesis using unf [OF False] last_ok by (simp add: n_def)
    qed
  qed
  have p4: "parse_string_block data nv = Inr strs"
    if a: "\<not> int (length data) < 4 * (nv + 1)"
      and b: "\<not> u32_at data (nat nv) > int (length (data_section data (nat nv)))"
      and c: "\<not> (\<exists>i < nat nv. u32_at data i > u32_at data (i + 1))"
      and d: "length strs = nat nv"
      and e: "\<forall>i < nat nv. string_at data (nat nv) i = Inr (strs ! i)"
  proof -
    have "\<forall>j<n. map (u32_at data) [0..<n + 1] ! (0 + j) \<le> map (u32_at data) [0..<n + 1] ! (0 + j + 1)
      \<and> utf8_decode (slice (data_section data n) (nat (map (u32_at data) [0..<n + 1] ! (0 + j)))
           (nat (map (u32_at data) [0..<n + 1] ! (0 + j + 1)))) = Inr (strs ! j)"
    proof (intro allI impI)
      fix j assume j: "j < n"
      have "\<not> u32_at data j > u32_at data (j + 1)" using c j unfolding n_def by blast
      then have "u32_at data j \<le> u32_at data (j + 1)" by simp
      moreover have "string_at data n j = Inr (strs ! j)" using e j by (simp add: n_def)
      ultimately show "map (u32_at data) [0..<n + 1] ! (0 + j) \<le> map (u32_at data) [0..<n + 1] ! (0 + j + 1)
      \<and> utf8_decode (slice (data_section data n) (nat (map (u32_at data) [0..<n + 1] ! (0 + j)))
           (nat (map (u32_at data) [0..<n + 1] ! (0 + j + 1)))) = Inr (strs ! j)"
        using j nth [of j] nth [of "j + 1"] by (simp add: string_at_def)
    qed
    from strings_loop_ok [OF _ this] d
    have "strings_loop (data_section data n) (map (u32_at data) [0..<n + 1]) 0 n = Inr strs"
      by (simp add: n_def)
    with unf [OF a] b show ?thesis by (simp add: n_def)
  qed
  show ?thesis
    using short p2 p3 p4 by blast
qed

theorem parse_string_block_checks_witness:
  "parse_string_block [0, 0, 0, 0, 1, 0, 0, 0, 0x61] 1 = Inr [[97]]
   \<and> (\<exists>msg. parse_string_block [0, 0, 0] 1 = Inl (ValueError msg))"
  using parse_string_block_checks [of 1 "[0, 0, 0, 0, 1, 0, 0, 0, 0x61]" "[[97]]"]
    parse_string_block_checks [of 1 "[0, 0, 0]" "[]"]
  by (simp add: u32_at_def data_section_def string_at_def slice_def utf8_decode_def)

subsection \<open>The header encoding\<close>

lemma pack_uint_Inr_iff:
  "pack_uint n x = Inr b \<longleftrightarrow> 0 \<le> x \<and> x < 256 ^ n \<and> b = le_bytes n x"
  by (auto simp: pack_uint_def)

lemmas pack_defs = pack_u8_def pack_u16_def pack_u32_def pack_u64_def

lemma utf8_encode_char_length: "utf8_encode_char c = Inr b \<Longrightarrow> length b = utf8_char_len c"
  by (auto simp: utf8_encode_char_def utf8_char_len_def split: if_splits)

lemma utf8_encode_length: "utf8_encode s = Inr b \<Longrightarrow> length b = utf8_len s"
proof (induction s arbitrary: b)
  case Nil
  then show ?case by (simp add: utf8_len_def)
next
  case (Cons c s)
  then show ?case
    by (auto simp: ebind_Inr_iff utf8_len_def dest: utf8_encode_char_length)
qed

lemma build_entry_Inr_iff:
  "build_entry e = Inr b \<longleftrightarrow>
     (\<exists>name_b. utf8_encode (name e) = Inr name_b \<and> utf8_len (name e) < 2 ^ 16
        \<and> 0 \<le> type_id e \<and> type_id e < 256 \<and> 0 \<le> flags e \<and> flags e < 256
        \<and> u64 (num_values e) \<and> u64 (offset e) \<and> u64 (comp_size e) \<and> u64 (uncomp_size e)
        \<and> b = le_bytes 2 (int (utf8_len (name e))) @ name_b @ le_bytes 1 (type_id e)
              @ le_bytes 1 (flags e) @ le_bytes 8 (num_values e) @ le_bytes 8 (offset e)
              @ le_bytes 8 (comp_size e) @ le_bytes 8 (uncomp_size e))"
proof (cases "utf8_encode (name e)")
  case (Inl err)
  then show ?thesis by (simp add: build_entry_def)
next
  case (Inr name_b)
  have l: "length name_b = utf8_len (name e)" using Inr by (rule utf8_encode_length)
  show ?thesis
  proof (cases "utf8_len (name e) < 2 ^ 16")
    case True
    then have "\<not> (2 ^ 16 \<le> int (utf8_len (name e)))" by simp
    then show ?thesis
      unfolding build_entry_def Inr ebind.simps Let_def l pack_defs
      by (simp only: if_False ebind_Inr_iff pack_uint_Inr_iff u64_def) (auto simp: True)
  next
    case False
    then have "2 ^ 16 \<le> int (utf8_len (name e))" by simp
    then show ?thesis
      unfolding build_entry_def Inr ebind.simps Let_def l
      using False by (simp only: if_True) simp
  qed
qed

lemma build_entry_length: "build_entry e = Inr b \<Longrightarrow> length b = 36 + utf8_len (name e)"
  by (auto simp: build_entry_Inr_iff dest: utf8_encode_length)

lemma build_entries_length:
  "build_entries es = Inr b \<Longrightarrow> length b = (\<Sum>e\<leftarrow>es. 36 + utf8_len (name e))"
proof (induction es arbitrary: b)
  case Nil
  then show ?case by simp
next
  case (Cons e es)
  then show ?case by (auto simp: ebind_Inr_iff dest: build_entry_length)
qed

lemma build_header_Inr_iff:
  "build_header s r es = Inr h \<longleftrightarrow>
     (\<exists>buf. u64 r \<and> length es < 2 ^ 32 \<and> build_entries es = Inr buf
        \<and> h = le_bytes 4 (s AND 0xFFFFFFFF) @ le_bytes 8 r @ le_bytes 4 (int (length es)) @ buf)"
proof -
  have "0 \<le> s AND 0xFFFFFFFF" by simp
  moreover have "s AND 0xFFFFFFFF < 256 ^ 4"
    using AND_upper2' [of "0xFFFFFFFF" s] by simp
  ultimately have sig: "pack_u32 (s AND 0xFFFFFFFF) = Inr (le_bytes 4 (s AND 0xFFFFFFFF))"
    by (simp add: pack_u32_def pack_uint_def)
  show ?thesis
    unfolding build_header_def sig ebind.simps pack_defs
    by (simp only: ebind_Inr_iff pack_uint_Inr_iff u64_def) auto
qed

lemma build_header_length:
  "build_header s r es = Inr h \<Longrightarrow> length h = 16 + (\<Sum>e\<leftarrow>es. 36 + utf8_len (name e))"
  by (auto simp: build_header_Inr_iff dest: build_entries_length)

lemma same_schema_names:
  "list_all2 same_schema_fields es es' \<Longrightarrow> map name es = map name es'"
  by (induction rule: list_all2_induct) (simp_all add: same_schema_fields_def)

lemma build_entries_same_schema:
  "list_all2 same_schema_fields es es' \<Longrightarrow> build_entries es = Inr b \<Longrightarrow>
   list_all block_fields_u64 es' \<Longrightarrow> \<exists>b'. build_entries es' = Inr b'"
proof (induction arbitrary: b rule: list_all2_induct)
  case Nil
  then show ?case by simp
next
  case (Cons e es e' es')
  from Cons.prems obtain b1 b2 where b1: "build_entry e = Inr b1" and b2: "build_entries es = Inr b2"
    by (auto simp: ebind_Inr_iff)
  from Cons.IH [OF b2] Cons.prems obtain b2' where b2': "build_entries es' = Inr b2'" by auto
  from b1 Cons.hyps(1) Cons.prems(2) have "\<exists>b1'. build_entry e' = Inr b1'"
    by (auto simp: build_entry_Inr_iff same_schema_fields_def block_fields_u64_def)
  with b2' show ?case by auto
qed

text \<open>
  C2.  Take a schema signature, a row count and two lists of column entries that agree in
  every name, type, flags and element count, so that they differ at most in the fields
  \<open>offset\<close>, \<open>comp_size\<close> and \<open>uncomp_size\<close>.  Whatever these fields hold, two headers that
  \<open>build_header\<close> encodes from the two lists have the same number of bytes; and when it
  encodes the first list, it encodes the second too, to the same length, as soon as the
  three fields there are unsigned 64-bit values (\<open>struct.pack\<close> has no encoding for
  others).  The first list can be the placeholder one, all three fields zero.
\<close>

theorem build_header_length_invariant:
  assumes "list_all2 same_schema_fields es es'"
  shows "(build_header s r es = Inr h \<and> build_header s r es' = Inr h' \<longrightarrow> length h = length h')
       \<and> (build_header s r es = Inr h \<and> list_all block_fields_u64 es'
            \<longrightarrow> (\<exists>h'. build_header s r es' = Inr h' \<and> length h' = length h))"
proof (intro conjI impI)
  have names: "map name es = map name es'" using assms by (rule same_schema_names)
  have len: "length es = length es'" using assms by (rule list_all2_lengthD)
  have sum: "(\<Sum>e\<leftarrow>es. 36 + utf8_len (name e)) = (\<Sum>e\<leftarrow>es'. 36 + utf8_len (name e))"
  proof -
    have "map (\<lambda>e. 36 + utf8_len (name e)) es = map (\<lambda>n. 36 + utf8_len n) (map name es)"
      by simp
    also have "\<dots> = map (\<lambda>e. 36 + utf8_len (name e)) es'" by (simp add: names)
    finally show ?thesis by simp
  qed
  {
    assume "build_header s r es = Inr h \<and> build_header s r es' = Inr h'"
    then show "length h = length h'"
      using sum by (auto dest!: build_header_length)
  }
  {
    assume a: "build_header s r es = Inr h \<and> list_all block_fields_u64 es'"
    then obtain buf where r: "u64 r" "length es < 2 ^ 32" and buf: "build_entries es = Inr buf"
      by (auto simp: build_header_Inr_iff)
    from build_entries_same_schema [OF assms buf] a obtain b' where "build_entries es' = Inr b'"
      by auto
    with r len obtain h' where h': "build_header s r es' = Inr h'"
      by (auto simp: build_header_Inr_iff)
    with a sum have "length h' = length h" by (auto dest!: build_header_length)
    with h' show "\<exists>h'. build_header s r es' = Inr h' \<and> length h' = length h" by blast
  }
qed

theorem build_header_length_invariant_witness:
  "\<exists>h h'. build_header 0xDEADBEEF 3
            [\<lparr>name = [105, 100], type_id = 0, flags = 0, num_values = 3,
              offset = 0, comp_size = 0, uncomp_size = 0\<rparr>] = Inr h
     \<and> build_header 0xDEADBEEF 3
            [\<lparr>name = [105, 100], type_id = 0, flags = 0, num_values = 3,
              offset = 1000, comp_size = 150, uncomp_size = 400\<rparr>] = Inr h'
     \<and> length h' = length h"
proof -
  let ?e = "\<lparr>name = [105, 100], type_id = 0, flags = 0, num_values = 3,
              offset = 0, comp_size = 0, uncomp_size = 0\<rparr>"
  let ?e' = "\<lparr>name = [105, 100], type_id = 0, flags = 0, num_values = 3,
              offset = 1000, comp_size = 150, uncomp_size = 400\<rparr>"
  have "\<exists>b. build_entry ?e = Inr b"
    by (simp add: build_entry_Inr_iff ebind_Inr_iff utf8_encode_char_def utf8_len_def
        utf8_char_len_def u64_def)
  then obtain h where h: "build_header 0xDEADBEEF 3 [?e] = Inr h"
    by (auto simp: build_header_Inr_iff ebind_Inr_iff u64_def)
  have s: "list_all2 same_schema_fields [?e] [?e']"
    by (simp add: same_schema_fields_def)
  have u: "list_all block_fields_u64 [?e']"
    by (simp add: block_fields_u64_def u64_def)
  from build_header_length_invariant [OF s, of "0xDEADBEEF" 3 h] h u
  obtain h' where "build_header 0xDEADBEEF 3 [?e'] = Inr h' \<and> length h' = length h"
    by blast
  with h show ?thesis by blast
qed

subsection \<open>The writer's validation\<close>

text \<open>
  C6.  When two of the value lists in \<open>columns\<close> differ in length, \<open>write_cstm\<close> raises a
  \<open>ValueError\<close> and leaves the file system as it was: the check precedes \<open>open\<close>, so the
  output path is neither created nor truncated and no byte is written.
\<close>

theorem write_cstm_rejects_unequal_columns:
  assumes "\<exists>c1 \<in> set columns. \<exists>c2 \<in> set columns. length c1 \<noteq> length c2"
  shows "\<exists>msg. write_cstm compress fs out_path names types columns sig
           = (Inl (ValueError msg), fs)"
proof (cases "length names = length types \<and> length types = length columns")
  case False
  then show ?thesis by (auto simp: write_cstm_def)
next
  case True
  from assms obtain c1 c2 where c: "c1 \<in> set columns" "c2 \<in> set columns" "length c1 \<noteq> length c2"
    by blast
  then have ne: "length names > 0" using True by (cases columns) auto
  obtain c where "c \<in> set columns" "length c \<noteq> length (columns ! 0)"
    using c by metis
  then have "list_ex (\<lambda>col. length col \<noteq> length (columns ! 0)) columns"
    unfolding list_ex_iff by blast
  with True ne show ?thesis by (simp add: write_cstm_def)
qed

theorem write_cstm_rejects_unequal_columns_witness:
  "\<exists>msg. write_cstm (\<lambda>b. b) Map.empty ''t.cstm'' [[105, 100], [97]] [0, 0] [[PyInt 1, PyInt 2], [PyInt 3]] 0
     = (Inl (ValueError msg), Map.empty)"
proof -
  have "\<exists>c1 \<in> set [[PyInt 1, PyInt 2], [PyInt 3]].
          \<exists>c2 \<in> set [[PyInt 1, PyInt 2], [PyInt 3]]. length c1 \<noteq> length c2"
    by (intro bexI [of _ "[PyInt 1, PyInt 2]"] bexI [of _ "[PyInt 3]"]) simp_all
  from write_cstm_rejects_unequal_columns [OF this] show ?thesis .
qed

subsection \<open>Selecting columns\<close>

lemma dom_fold_name:
  "dom (fold (\<lambda>col m. m(name col \<mapsto> col)) metas m0) = dom m0 \<union> name ` set metas"
  by (induction metas arbitrary: m0) auto

lemma dom_name_to_meta: "dom (name_to_meta metas) = set (map name metas)"
  by (simp add: name_to_meta_def dom_fold_name)

lemma select_metas_missing:
  "\<not> set sel \<subseteq> dom m \<Longrightarrow>
   select_metas m sel = Inl (ValueError ''Requested column not found in file'')"
proof (induction sel)
  case Nil
  then show ?case by simp
next
  case (Cons n ns)
  show ?case
  proof (cases "m n")
    case None
    then show ?thesis by simp
  next
    case (Some col)
    then have "\<not> set ns \<subseteq> dom m" using Cons.prems by auto
    from Cons.IH [OF this] Some show ?thesis by simp
  qed
qed

lemma file_columns_Inr:
  assumes "file_columns fs path = Inr metas"
  obtains b f where "fs path = Some b"
    and "read_prefix_and_header \<lparr>fbytes = b, fpos = 0\<rparr> = Inr (metas, f)"
  using assms by (auto simp: file_columns_def ebind_Inr_iff split: option.splits)

lemma read_cstm_unfold:
  assumes "fs path = Some b"
    and "read_prefix_and_header \<lparr>fbytes = b, fpos = 0\<rparr> = Inr (metas, f)"
  shows "read_cstm d fs path sel =
         ebind (case sel of None \<Rightarrow> Inr metas | Some s \<Rightarrow> select_metas (name_to_meta metas) s)
           (\<lambda>selected_meta. ebind (read_columns d f selected_meta) build_rows)"
  using assms by (simp add: read_cstm_def)

lemma example_header_file_columns:
  "file_columns [''t.cstm'' \<mapsto> example_header_file] ''t.cstm''
   = Inr [\<lparr>name = [105, 100], type_id = 0, flags = 0, num_values = 3,
            offset = 73, comp_size = 20, uncomp_size = 12\<rparr>]"
  by (simp add: file_columns_def example_header_file_def read_prefix_and_header_def
      read_exact_def f_read_def MAGIC_def unpack_u64_def unpack_u32_def unpack_u16_def
      unpack_u8_def unpack_uint_def parse_header_def read_field_def parse_column_def
      SIZE_U8_def SIZE_U16_def SIZE_U32_def SIZE_U64_def utf8_decode_def)

text \<open>
  C5.  For every file whose prefix and header the reader accepts, and every selection that
  holds a name not among the header's column names, \<open>read_cstm\<close> raises the
  "column not found" \<open>ValueError\<close>; being an exception, it comes with no names and no rows.
\<close>

theorem read_cstm_missing_column:
  assumes "file_columns fs path = Inr metas"
    and "\<not> set sel \<subseteq> set (map name metas)"
  shows "read_cstm d fs path (Some sel) = Inl (ValueError ''Requested column not found in file'')"
proof -
  from assms(1) obtain b f where b: "fs path = Some b"
    and h: "read_prefix_and_header \<lparr>fbytes = b, fpos = 0\<rparr> = Inr (metas, f)"
    by (rule file_columns_Inr)
  have "select_metas (name_to_meta metas) sel
        = Inl (ValueError ''Requested column not found in file'')"
    using assms(2) by (intro select_metas_missing) (simp add: dom_name_to_meta)
  then show ?thesis by (simp add: read_cstm_unfold [of fs path b metas f, OF b h])
qed

theorem read_cstm_missing_column_witness:
  "read_cstm (\<lambda>b. None) [''t.cstm'' \<mapsto> example_header_file] ''t.cstm''
     (Some [[105, 100], [120]])
   = Inl (ValueError ''Requested column not found in file'')"
  using read_cstm_missing_column [OF example_header_file_columns, of "[[105, 100], [120]]" "\<lambda>b. None"]
  by simp

lemma read_column_name:
  assumes "read_column d f col = Inr (r, f')"
  shows "fst r = name col"
proof (cases "comp_size col = 0 \<and> uncomp_size col = 0")
  case True
  with assms show ?thesis by (auto simp: read_column_def)
next
  case False
  with assms obtain cb f1 where
    rest: "(case d cb of
             None \<Rightarrow> Inl (RuntimeError ''zlib decompression failed'')
           | Some uncompressed \<Rightarrow>
               if int (length uncompressed) \<noteq> uncomp_size col
               then Inl (RuntimeError ''Uncompressed size mismatch'')
               else (case PARSERS (type_id col) of
                       None \<Rightarrow> Inl (ValueError ''Unknown column type'')
                     | Some parser \<Rightarrow>
                         ebind (parser uncompressed (num_values col)) (\<lambda>parsed_values.
                           Inr ((name col, parsed_values), f1)))) = Inr (r, f')"
    by (auto simp: read_column_def Let_def ebind_Inr_iff)
  show ?thesis
  proof (cases "d cb")
    case None
    with rest show ?thesis by simp
  next
    case (Some u)
    show ?thesis
    proof (cases "PARSERS (type_id col)")
      case None
      with rest Some show ?thesis by (simp split: if_splits)
    next
      case (Some parser)
      with rest \<open>d cb = Some u\<close> show ?thesis
        by (auto simp: ebind_Inr_iff split: if_splits)
    qed
  qed
qed

lemma read_columns_names:
  "read_columns d f metas = Inr rs \<Longrightarrow> map fst rs = map name metas"
proof (induction metas arbitrary: f rs)
  case Nil
  then show ?case by simp
next
  case (Cons m ms)
  from Cons.prems obtain r f' rest where r: "read_column d f m = Inr (r, f')"
    and rest: "read_columns d f' ms = Inr rest" and rs: "rs = r # rest"
    by (auto simp: ebind_Inr_iff)
  from r have "fst r = name m" by (rule read_column_name)
  with Cons.IH [OF rest] rs show ?case by simp
qed

lemma build_rows_names: "build_rows rs = Inr (ns, rows) \<Longrightarrow> ns = map fst rs"
  by (auto simp: build_rows_def Let_def split: if_splits)

text \<open>
  C10.  For every file whose prefix and header the reader accepts, \<open>read_cstm\<close> with the
  empty list as selection returns the empty name list with the empty row list, whatever
  columns and rows the file has; with \<open>None\<close> as selection, a result names every column of
  the header, in header order.
\<close>

theorem read_cstm_empty_selection:
  assumes "file_columns fs path = Inr metas"
  shows "read_cstm d fs path (Some []) = Inr ([], [])
       \<and> (\<forall>ns rows. read_cstm d fs path None = Inr (ns, rows) \<longrightarrow> ns = map name metas)"
proof -
  from assms obtain b f where b: "fs path = Some b"
    and h: "read_prefix_and_header \<lparr>fbytes = b, fpos = 0\<rparr> = Inr (metas, f)"
    by (rule file_columns_Inr)
  have 1: "read_cstm d fs path (Some []) = Inr ([], [])"
    by (simp add: read_cstm_unfold [of fs path b metas f, OF b h] build_rows_def)
  have 2: "ns = map name metas" if "read_cstm d fs path None = Inr (ns, rows)" for ns rows
  proof -
    from that obtain rs where rs: "read_columns d f metas = Inr rs"
      and br: "build_rows rs = Inr (ns, rows)"
      by (auto simp: read_cstm_unfold [of fs path b metas f, OF b h] ebind_Inr_iff)
    from build_rows_names [OF br] read_columns_names [OF rs] show ?thesis by simp
  qed
  from 1 2 show ?thesis by blast
qed

theorem read_cstm_empty_selection_witness:
  "read_cstm (\<lambda>b. None) [''t.cstm'' \<mapsto> example_header_file] ''t.cstm'' (Some [])
   = Inr ([], [])"
  using read_cstm_empty_selection [OF example_header_file_columns, of "\<lambda>b. None"]
  by blast

subsection \<open>Column blocks: parsing what was serialized\<close>

lemma slice_concat_fixed:
  "\<forall>x \<in> set xs. length x = k \<Longrightarrow> i < length xs \<Longrightarrow> slice (concat xs) (k * i) (k * i + k) = xs ! i"
proof (induction xs arbitrary: i)
  case Nil
  then show ?case by simp
next
  case (Cons x xs)
  show ?case
  proof (cases i)
    case 0
    with Cons.prems show ?thesis by (simp add: slice_def)
  next
    case (Suc j)
    with Cons.prems have "slice (concat xs) (k * j) (k * j + k) = xs ! j"
      by (intro Cons.IH) auto
    with Cons.prems Suc show ?thesis by (simp add: slice_def)
  qed
qed

lemma length_concat_fixed: "\<forall>x \<in> set xs. length x = k \<Longrightarrow> length (concat xs) = k * length xs"
  by (induction xs) auto

lemma slice_append1: "j \<le> length a \<Longrightarrow> slice (a @ b) i j = slice a i j"
  by (simp add: slice_def)

lemma serialize_int32_Inr:
  "serialize_int32_column vs = Inr b \<Longrightarrow>
   \<exists>xs. vs = map PyInt xs \<and> (\<forall>x \<in> set xs. - (2 ^ 31) \<le> x \<and> x < 2 ^ 31)
        \<and> b = concat (map (le_bytes 4) xs)"
proof (induction vs arbitrary: b)
  case Nil
  then show ?case by simp
next
  case (Cons v vs)
  from Cons.prems obtain x b1 b2 where v: "py_int v = Inr x"
    and r: "\<not> (x < I32_MIN \<or> x > I32_MAX)" and b1: "pack_i32 x = Inr b1"
    and b2: "serialize_int32_column vs = Inr b2" and b: "b = b1 @ b2"
    by (auto simp: ebind_Inr_iff split: if_splits)
  from v have vx: "v = PyInt x" by (cases v) auto
  from b1 have b1': "b1 = le_bytes 4 x" and rx: "- (2 ^ 31) \<le> x \<and> x < 2 ^ 31"
    by (auto simp: pack_i32_def split: if_splits)
  from Cons.IH [OF b2] obtain xs where "vs = map PyInt xs"
    "\<forall>x \<in> set xs. - (2 ^ 31) \<le> x \<and> x < 2 ^ 31" "b2 = concat (map (le_bytes 4) xs)"
    by blast
  with vx b b1' rx show ?case by (intro exI [of _ "x # xs"]) simp
qed

lemma serialize_int32_valid:
  "list_all (valid_value 0) vs \<Longrightarrow> \<exists>b. serialize_int32_column vs = Inr b"
proof (induction vs)
  case Nil
  show ?case by simp
next
  case (Cons v vs)
  then obtain b where b: "serialize_int32_column vs = Inr b" by auto
  from Cons.prems obtain x where "v = PyInt x" "I32_MIN \<le> x" "x \<le> I32_MAX"
    by (cases v) auto
  with b show ?case by (simp add: pack_i32_def I32_MIN_def I32_MAX_def)
qed

lemma parse_int32_roundtrip:
  assumes "\<forall>x \<in> set xs. - (2 ^ 31) \<le> x \<and> x < 2 ^ 31"
  shows "parse_int32_block (concat (map (le_bytes 4) xs)) (int (length xs)) = Inr xs"
proof -
  let ?d = "concat (map (le_bytes 4) xs)"
  have len: "length ?d = 4 * length xs"
    using length_concat_fixed [of "map (le_bytes 4) xs" 4] by simp
  then have n: "0 + 4 * length xs \<le> length ?d" by simp
  have "map (\<lambda>i. sint (word_of_int (le_int (slice ?d (0 + 4 * i) (0 + 4 * i + 4))) :: 32 word))
          [0..<length xs] = xs"
  proof (rule nth_equalityI)
    show "length (map (\<lambda>i. sint (word_of_int (le_int (slice ?d (0 + 4 * i) (0 + 4 * i + 4))) :: 32 word))
          [0..<length xs]) = length xs" by simp
  next
    fix i assume "i < length (map (\<lambda>i. sint (word_of_int (le_int (slice ?d (0 + 4 * i) (0 + 4 * i + 4))) :: 32 word))
          [0..<length xs])"
    then have i: "i < length xs" by simp
    have "slice ?d (4 * i) (4 * i + 4) = map (le_bytes 4) xs ! i"
      using i by (intro slice_concat_fixed) auto
    then have s: "slice ?d (4 * i) (4 * i + 4) = le_bytes 4 (xs ! i)" using i by simp
    have "xs ! i \<in> set xs" using i by simp
    with assms have "- (2 ^ 31) \<le> xs ! i" "xs ! i < 2 ^ 31" by auto
    from sint_le_bytes4 [OF this] s i
    show "map (\<lambda>i. sint (word_of_int (le_int (slice ?d (0 + 4 * i) (0 + 4 * i + 4))) :: 32 word))
          [0..<length xs] ! i = xs ! i" by simp
  qed
  then show ?thesis
    by (simp add: parse_int32_block_def SIZE_I32_def len int32_loop_closed [OF n])
qed

lemma serialize_float64_Inr:
  "serialize_float64_column vs = Inr b \<Longrightarrow>
   \<exists>xs. vs = map PyFloat xs \<and> b = concat (map pack_f64 xs)"
proof (induction vs arbitrary: b)
  case Nil
  then show ?case by simp
next
  case (Cons v vs)
  from Cons.prems obtain x b2 where v: "py_float v = Inr x"
    and b2: "serialize_float64_column vs = Inr b2" and b: "b = pack_f64 x @ b2"
    by (auto simp: ebind_Inr_iff split: if_splits)
  from v have vx: "v = PyFloat x" by (cases v) auto
  from Cons.IH [OF b2] obtain xs where "vs = map PyFloat xs" "b2 = concat (map pack_f64 xs)"
    by blast
  with vx b show ?case by (intro exI [of _ "x # xs"]) simp
qed

lemma serialize_float64_valid:
  "list_all (valid_value 1) vs \<Longrightarrow> \<exists>b. serialize_float64_column vs = Inr b"
proof (induction vs)
  case Nil
  show ?case by simp
next
  case (Cons v vs)
  then obtain b where b: "serialize_float64_column vs = Inr b" by auto
  from Cons.prems obtain x where "v = PyFloat x" by (cases v) auto
  with b show ?case by simp
qed

lemma parse_float64_roundtrip:
  "parse_float64_block (concat (map pack_f64 xs)) (int (length xs)) = Inr xs"
proof -
  let ?d = "concat (map pack_f64 xs)"
  have len: "length ?d = 8 * length xs"
    using length_concat_fixed [of "map pack_f64 xs" 8] by (simp add: pack_f64_def)
  then have n: "0 + 8 * length xs \<le> length ?d" by simp
  have "map (\<lambda>i. word_of_int (le_int (slice ?d (0 + 8 * i) (0 + 8 * i + 8))) :: 64 word)
          [0..<length xs] = xs"
  proof (rule nth_equalityI)
    show "length (map (\<lambda>i. word_of_int (le_int (slice ?d (0 + 8 * i) (0 + 8 * i + 8))) :: 64 word)
          [0..<length xs]) = length xs" by simp
  next
    fix i assume "i < length (map (\<lambda>i. word_of_int (le_int (slice ?d (0 + 8 * i) (0 + 8 * i + 8))) :: 64 word)
          [0..<length xs])"
    then have i: "i < length xs" by simp
    have "slice ?d (8 * i) (8 * i + 8) = map pack_f64 xs ! i"
      using i by (intro slice_concat_fixed) (auto simp: pack_f64_def)
    then have s: "slice ?d (8 * i) (8 * i + 8) = pack_f64 (xs ! i)" using i by simp
    have "unpack_f64 (pack_f64 (xs ! i)) = Inr (xs ! i)" by (rule unpack_f64_pack)
    then have "word_of_int (le_int (pack_f64 (xs ! i))) = xs ! i"
      by (simp add: unpack_f64_def pack_f64_def)
    with s i
    show "map (\<lambda>i. word_of_int (le_int (slice ?d (0 + 8 * i) (0 + 8 * i + 8))) :: 64 word)
          [0..<length xs] ! i = xs ! i" by simp
  qed
  then show ?thesis
    by (simp add: parse_float64_block_def SIZE_F64_def len float64_loop_closed [OF n])
qed

lemma utf8_encode_char_scalar: "utf8_encode_char c = Inr b \<Longrightarrow> scalar_value c"
  by (auto simp: utf8_encode_char_def scalar_value_def split: if_splits)

lemma utf8_encode_scalar: "utf8_encode s = Inr b \<Longrightarrow> list_all scalar_value s"
  by (induction s arbitrary: b) (auto simp: ebind_Inr_iff dest: utf8_encode_char_scalar)

lemma utf8_decode_Nil: "utf8_decode [] = Inr []"
  by (simp add: utf8_decode_def)

lemma string_part_decodes:
  assumes "(if v = PyNone then Inr [] else py_str_bytes v) = Inr p"
  shows "utf8_decode p = Inr (str_of v) \<and> length p = utf8_len (str_of v)"
proof (cases v)
  case PyNone
  with assms show ?thesis by (simp add: utf8_decode_Nil str_of_def utf8_len_def)
next
  case (PyStr s)
  with assms have e: "utf8_encode s = Inr p" by simp
  from utf8_decode_encode [OF utf8_encode_scalar [OF e] e] utf8_encode_length [OF e] PyStr
  show ?thesis by (simp add: str_of_def)
qed (use assms in simp_all)

lemma string_parts_Inr:
  "string_parts vs = Inr parts \<Longrightarrow>
   list_all2 (\<lambda>v p. utf8_decode p = Inr (str_of v) \<and> length p = utf8_len (str_of v)) vs parts"
proof (induction vs arbitrary: parts)
  case Nil
  then show ?case by simp
next
  case (Cons v vs)
  from Cons.prems obtain p ps where p: "(if v = PyNone then Inr [] else py_str_bytes v) = Inr p"
    and ps: "string_parts vs = Inr ps" and parts: "parts = p # ps"
    by (auto simp: ebind_Inr_iff)
  from string_part_decodes [OF p] Cons.IH [OF ps] parts show ?case by simp
qed

lemma string_parts_data_len:
  "string_parts vs = Inr parts \<Longrightarrow> length (concat parts) = col_data_len vs"
proof -
  assume "string_parts vs = Inr parts"
  then have "list_all2 (\<lambda>v p. utf8_decode p = Inr (str_of v) \<and> length p = utf8_len (str_of v)) vs parts"
    by (rule string_parts_Inr)
  then show ?thesis
    by (induction rule: list_all2_induct) (simp_all add: col_data_len_def)
qed

lemma string_parts_valid:
  "list_all (valid_value 2) vs \<Longrightarrow> \<exists>parts. string_parts vs = Inr parts"
proof (induction vs)
  case Nil
  show ?case by simp
next
  case (Cons v vs)
  then obtain ps where ps: "string_parts vs = Inr ps" by auto
  from Cons.prems obtain s where v: "v = PyStr s" "list_all scalar_value s"
    by (cases v) auto
  from utf8_encode_ok [OF v(2)] obtain b where "utf8_encode s = Inr b" by blast
  with v ps show ?case by simp
qed

lemma length_string_offsets: "length (string_offsets c ps) = length ps + 1"
  by (induction ps arbitrary: c) simp_all

lemma string_offsets_nth:
  "i \<le> length ps \<Longrightarrow> string_offsets c ps ! i = c + int (length (concat (take i ps)))"
proof (induction ps arbitrary: c i)
  case Nil
  then show ?case by simp
next
  case (Cons p ps)
  then show ?case by (cases i) simp_all
qed

lemma last_string_offsets: "last (string_offsets c ps) = c + int (length (concat ps))"
proof -
  have "string_offsets c ps \<noteq> []" by (cases ps) simp_all
  then have "last (string_offsets c ps) = string_offsets c ps ! length ps"
    by (simp add: last_conv_nth length_string_offsets)
  then show ?thesis by (simp add: string_offsets_nth)
qed

lemma length_concat_take_le: "length (concat (take i ps)) \<le> length (concat ps)"
proof -
  have "concat ps = concat (take i ps) @ concat (drop i ps)"
    by (simp flip: concat_append)
  then show ?thesis by (metis le_add1 length_append)
qed

lemma string_offsets_range:
  "x \<in> set (string_offsets c ps) \<Longrightarrow> c \<le> x \<and> x \<le> c + int (length (concat ps))"
proof -
  assume "x \<in> set (string_offsets c ps)"
  then obtain i where i: "i < length ps + 1" "x = string_offsets c ps ! i"
    by (auto simp: in_set_conv_nth length_string_offsets)
  then have "x = c + int (length (concat (take i ps)))" by (simp add: string_offsets_nth)
  with length_concat_take_le [of i ps] show ?thesis by simp
qed

lemma pack_u32_all_Inr_iff:
  "pack_u32_all offs = Inr b \<longleftrightarrow>
     (\<forall>x \<in> set offs. 0 \<le> x \<and> x < 2 ^ 32) \<and> b = concat (map (le_bytes 4) offs)"
proof (induction offs arbitrary: b)
  case Nil
  show ?case by auto
next
  case (Cons x offs)
  show ?case
    by (auto simp: ebind_Inr_iff Cons.IH pack_u32_def pack_uint_Inr_iff)
qed

lemma serialize_string_Inr_iff:
  "serialize_string_column vs = Inr b \<longleftrightarrow>
     (\<exists>parts. string_parts vs = Inr parts \<and> int (length (concat parts)) \<le> UINT32_MAX
        \<and> b = concat (map (le_bytes 4) (string_offsets 0 parts)) @ concat parts)"
proof (cases "string_parts vs")
  case (Inl e)
  then show ?thesis by (simp add: serialize_string_column_def)
next
  case (Inr parts)
  show ?thesis
  proof (cases "int (length (concat parts)) \<le> UINT32_MAX")
    case True
    then have "\<forall>x \<in> set (string_offsets 0 parts). 0 \<le> x \<and> x < 2 ^ 32"
      using string_offsets_range [of _ 0 parts] by (fastforce simp: UINT32_MAX_def)
    then have "pack_u32_all (string_offsets 0 parts)
               = Inr (concat (map (le_bytes 4) (string_offsets 0 parts)))"
      by (simp add: pack_u32_all_Inr_iff)
    with True Inr show ?thesis
      by (auto simp: serialize_string_column_def Let_def last_string_offsets)
  next
    case False
    with Inr show ?thesis
      by (auto simp: serialize_string_column_def Let_def last_string_offsets)
  qed
qed

lemma slice_concat_nth:
  "j < length ps \<Longrightarrow>
   slice (concat ps) (length (concat (take j ps))) (length (concat (take (Suc j) ps))) = ps ! j"
proof -
  assume j: "j < length ps"
  have "ps = take j ps @ ps ! j # drop (Suc j) ps" using j by (rule id_take_nth_drop)
  then have c: "concat ps = concat (take j ps) @ ps ! j @ concat (drop (Suc j) ps)"
    by (metis concat.simps(2) concat_append)
  have t: "concat (take (Suc j) ps) = concat (take j ps) @ ps ! j"
    using j by (simp add: take_Suc_conv_app_nth)
  have "slice (concat (take j ps) @ ps ! j @ concat (drop (Suc j) ps))
          (length (concat (take j ps))) (length (concat (take j ps)) + length (ps ! j)) = ps ! j"
    by (rule slice_append_mid)
  then show ?thesis by (simp add: t flip: c)
qed

lemma parse_string_roundtrip:
  assumes parts: "string_parts vs = Inr parts"
    and fit: "int (length (concat parts)) \<le> UINT32_MAX"
  shows "parse_string_block (concat (map (le_bytes 4) (string_offsets 0 parts)) @ concat parts)
           (int (length vs)) = Inr (map str_of vs)"
proof -
  define offs where "offs = string_offsets 0 parts"
  define T where "T = concat (map (le_bytes 4) offs)"
  define D where "D = concat parts"
  define n where "n = length vs"
  note l2 = string_parts_Inr [OF parts]
  have np: "length parts = n" using l2 by (simp add: n_def list_all2_lengthD)
  have lo: "length offs = n + 1" by (simp add: offs_def length_string_offsets np)
  have lT: "length T = 4 * (n + 1)"
    using length_concat_fixed [of "map (le_bytes 4) offs" 4] by (simp add: T_def lo)
  have rng: "0 \<le> x \<and> x < 2 ^ 32" if "x \<in> set offs" for x
    using string_offsets_range [of x 0 parts] that fit by (simp add: offs_def UINT32_MAX_def)
  have u: "u32_at (T @ D) i = offs ! i" if "i \<le> n" for i
  proof -
    have i: "i < length (map (le_bytes 4) offs)" using that lo by simp
    have "slice (T @ D) (4 * i) (4 * i + 4) = slice T (4 * i) (4 * i + 4)"
      using that lT by (intro slice_append1) simp
    also have "\<dots> = map (le_bytes 4) offs ! i"
      unfolding T_def using i by (intro slice_concat_fixed) auto
    also have "\<dots> = le_bytes 4 (offs ! i)" using i by simp
    finally have s: "slice (T @ D) (4 * i) (4 * i + 4) = le_bytes 4 (offs ! i)" .
    have "offs ! i \<in> set offs" using that lo by simp
    from rng [OF this] have "offs ! i mod 256 ^ 4 = offs ! i" by simp
    then show ?thesis by (simp add: u32_at_def s le_int_le_bytes)
  qed
  have m: "map (u32_at (T @ D)) [0..<n + 1] = offs"
    by (rule nth_equalityI) (simp_all add: lo u less_Suc_eq_le nth_append del: upt_Suc)
  have ds: "data_section (T @ D) n = D" by (simp add: data_section_def lT)
  have on: "offs ! j = int (length (concat (take j parts)))" if "j \<le> n" for j
    using that by (simp add: offs_def string_offsets_nth np)
  have tk: "take n parts = parts" by (simp add: np)
  have "u32_at (T @ D) n = offs ! n" by (rule u) simp
  also have "\<dots> = int (length (concat (take n parts)))" by (rule on) simp
  also have "\<dots> = int (length D)" by (simp add: tk D_def)
  finally have "u32_at (T @ D) n = int (length D)" .
  then have lastok: "\<not> u32_at (T @ D) n > int (length (data_section (T @ D) n))"
    by (simp add: ds)
  have loop: "strings_loop D offs 0 n = Inr (map str_of vs)"
  proof (rule strings_loop_ok)
    show "length (map str_of vs) = n" by (simp add: n_def)
  next
    show "\<forall>j<n. offs ! (0 + j) \<le> offs ! (0 + j + 1)
      \<and> utf8_decode (slice D (nat (offs ! (0 + j))) (nat (offs ! (0 + j + 1)))) = Inr (map str_of vs ! j)"
    proof (intro allI impI)
      fix j assume j: "j < n"
      then have jp: "j < length parts" by (simp add: np)
      have a: "offs ! j = int (length (concat (take j parts)))" using j by (simp add: on)
      have b: "offs ! Suc j = int (length (concat (take (Suc j) parts)))" using j by (simp add: on)
      have mono: "offs ! j \<le> offs ! Suc j"
        using jp by (simp add: a b take_Suc_conv_app_nth)
      have "slice D (nat (offs ! j)) (nat (offs ! Suc j)) = parts ! j"
        by (simp add: a b D_def slice_concat_nth [OF jp])
      moreover have "utf8_decode (parts ! j) = Inr (str_of (vs ! j))"
        using list_all2_nthD2 [OF l2 jp] by simp
      ultimately show "offs ! (0 + j) \<le> offs ! (0 + j + 1)
        \<and> utf8_decode (slice D (nat (offs ! (0 + j))) (nat (offs ! (0 + j + 1)))) = Inr (map str_of vs ! j)"
        using mono j by (simp add: n_def)
    qed
  qed
  have "parse_string_block (T @ D) (int n) =
     (if u32_at (T @ D) (nat (int n)) > int (length (data_section (T @ D) (nat (int n))))
      then Inl (ValueError ''Last offset exceeds data section length'')
      else strings_loop (data_section (T @ D) (nat (int n)))
             (map (u32_at (T @ D)) [0..<nat (int n) + 1]) 0 (nat (int n)))"
    by (rule parse_string_block_unfold) (simp_all add: lT)
  then have "parse_string_block (T @ D) (int n) = Inr (map str_of vs)"
    using lastok by (simp only: nat_int m ds if_False loop)
  then show ?thesis by (simp add: T_def D_def offs_def n_def)
qed

lemma block_roundtrip:
  assumes "SERIALIZERS t = Some ser" "ser col = Inr u"
  shows "\<exists>par. PARSERS t = Some par \<and> par u (int (length col)) = Inr (read_back t col)"
proof -
  consider "t = 0" | "t = 1" | "t = 2"
    using assms(1) by (auto simp: SERIALIZERS_def split: if_splits)
  then show ?thesis
  proof cases
    case 1
    with assms have "serialize_int32_column col = Inr u" by (simp add: SERIALIZERS_def)
    from serialize_int32_Inr [OF this] obtain xs where xs: "col = map PyInt xs"
      "\<forall>x \<in> set xs. - (2 ^ 31) \<le> x \<and> x < 2 ^ 31" "u = concat (map (le_bytes 4) xs)"
      by blast
    from parse_int32_roundtrip [OF xs(2)] xs 1 show ?thesis
      by (simp add: PARSERS_def read_back_def)
  next
    case 2
    with assms have "serialize_float64_column col = Inr u" by (simp add: SERIALIZERS_def)
    from serialize_float64_Inr [OF this] obtain xs where xs: "col = map PyFloat xs"
      "u = concat (map pack_f64 xs)"
      by blast
    from parse_float64_roundtrip [of xs] xs 2 show ?thesis
      by (simp add: PARSERS_def read_back_def)
  next
    case 3
    with assms have "serialize_string_column col = Inr u" by (simp add: SERIALIZERS_def)
    then obtain parts where p: "string_parts col = Inr parts"
      "int (length (concat parts)) \<le> UINT32_MAX"
      "u = concat (map (le_bytes 4) (string_offsets 0 parts)) @ concat parts"
      by (auto simp: serialize_string_Inr_iff)
    from parse_string_roundtrip [OF p(1,2)] p(3) 3 show ?thesis
      by (simp add: PARSERS_def read_back_def comp_def)
  qed
qed

lemma read_back_valid: "list_all (valid_value t) col \<Longrightarrow> read_back t col = col"
proof -
  assume v: "list_all (valid_value t) col"
  have "map (\<lambda>v. PyStr (str_of v)) col = col" if "t = 2"
  proof (rule map_idI)
    fix x assume "x \<in> set col"
    with v have "valid_value t x" by (simp add: list_all_iff)
    with that show "PyStr (str_of x) = x" by (cases x) (simp_all add: str_of_def)
  qed
  then show ?thesis by (simp add: read_back_def)
qed

lemma length_read_back: "length (read_back t col) = length col"
  by (simp add: read_back_def)

lemma serialized_empty:
  assumes "SERIALIZERS t = Some ser" "ser col = Inr []"
  shows "col = []"
proof -
  consider "t = 0" | "t = 1" | "t = 2"
    using assms(1) by (auto simp: SERIALIZERS_def split: if_splits)
  then show ?thesis
  proof cases
    case 1
    with assms have "serialize_int32_column col = Inr []" by (simp add: SERIALIZERS_def)
    from serialize_int32_Inr [OF this] obtain xs where xs: "col = map PyInt xs"
      "concat (map (le_bytes 4) xs) = []" by auto
    from length_concat_fixed [of "map (le_bytes 4) xs" 4] xs(2) have "xs = []" by simp
    with xs show ?thesis by simp
  next
    case 2
    with assms have "serialize_float64_column col = Inr []" by (simp add: SERIALIZERS_def)
    from serialize_float64_Inr [OF this] obtain xs where xs: "col = map PyFloat xs"
      "concat (map pack_f64 xs) = []" by auto
    from length_concat_fixed [of "map pack_f64 xs" 8] xs(2) have "xs = []"
      by (simp add: pack_f64_def)
    with xs show ?thesis by simp
  next
    case 3
    with assms have "serialize_string_column col = Inr []" by (simp add: SERIALIZERS_def)
    then obtain parts where "concat (map (le_bytes 4) (string_offsets 0 parts)) = []"
      by (auto simp: serialize_string_Inr_iff)
    with length_concat_fixed [of "map (le_bytes 4) (string_offsets 0 parts)" 4]
    have False by (simp add: length_string_offsets)
    then show ?thesis ..
  qed
qed

lemma serializers_total:
  assumes "t = 0 \<or> t = 1 \<or> t = 2" "list_all (valid_value t) col"
    and "int (col_data_len col) \<le> UINT32_MAX"
  shows "\<exists>ser u. SERIALIZERS t = Some ser \<and> ser col = Inr u"
proof -
  consider "t = 0" | "t = 1" | "t = 2" using assms(1) by blast
  then show ?thesis
  proof cases
    case 1
    with serialize_int32_valid [of col] assms(2) show ?thesis by (simp add: SERIALIZERS_def)
  next
    case 2
    with serialize_float64_valid [of col] assms(2) show ?thesis by (simp add: SERIALIZERS_def)
  next
    case 3
    with string_parts_valid [of col] assms(2) obtain parts where p: "string_parts col = Inr parts"
      by auto
    from string_parts_data_len [OF p] assms(3) have "int (length (concat parts)) \<le> UINT32_MAX"
      by simp
    with p 3 show ?thesis by (simp add: SERIALIZERS_def serialize_string_Inr_iff)
  qed
qed

subsection \<open>Header, writer and reader: the shape of a written file\<close>

lemma read_field_append: "length a = n \<Longrightarrow> read_field (a @ rest) n msg = Inr (a, rest)"
  by (simp add: read_field_def)

lemma parse_column_chunks:
  assumes "length bl = 2" "unpack_u16 bl = Inr (int (length nb))" "utf8_decode nb = Inr nm"
    and "length bt = 1" "unpack_u8 bt = Inr t" "length bf = 1" "unpack_u8 bf = Inr fl"
    and "length b1 = 8" "unpack_u64 b1 = Inr v1" "length b2 = 8" "unpack_u64 b2 = Inr v2"
    and "length b3 = 8" "unpack_u64 b3 = Inr v3" "length b4 = 8" "unpack_u64 b4 = Inr v4"
  shows "parse_column (bl @ nb @ bt @ bf @ b1 @ b2 @ b3 @ b4 @ rest)
         = Inr (\<lparr>name = nm, type_id = t, flags = fl, num_values = v1, offset = v2,
                  comp_size = v3, uncomp_size = v4\<rparr>, rest)"
  using assms
  by (simp add: parse_column_def read_field_append SIZE_U16_def SIZE_U8_def SIZE_U64_def)

lemma parse_column_build_entry:
  assumes "build_entry e = Inr b"
  shows "parse_column (b @ rest) = Inr (e, rest)"
proof -
  from assms obtain name_b where nb: "utf8_encode (name e) = Inr name_b"
    and l: "utf8_len (name e) < 2 ^ 16"
    and t: "0 \<le> type_id e" "type_id e < 256" and fl: "0 \<le> flags e" "flags e < 256"
    and u: "u64 (num_values e)" "u64 (offset e)" "u64 (comp_size e)" "u64 (uncomp_size e)"
    and b: "b = le_bytes 2 (int (utf8_len (name e))) @ name_b @ le_bytes 1 (type_id e)
              @ le_bytes 1 (flags e) @ le_bytes 8 (num_values e) @ le_bytes 8 (offset e)
              @ le_bytes 8 (comp_size e) @ le_bytes 8 (uncomp_size e)"
    unfolding build_entry_Inr_iff by blast
  have ln: "length name_b = utf8_len (name e)" using nb by (rule utf8_encode_length)
  have dec: "utf8_decode name_b = Inr (name e)"
    using utf8_encode_scalar [OF nb] nb by (rule utf8_decode_encode)
  have u16: "unpack_u16 (le_bytes 2 (int (utf8_len (name e)))) = Inr (int (utf8_len (name e)))"
    unfolding unpack_u16_def using l by (intro unpack_uint_pack) simp_all
  have u8t: "unpack_u8 (le_bytes 1 (type_id e)) = Inr (type_id e)"
    unfolding unpack_u8_def using t by (intro unpack_uint_pack) simp_all
  have u8f: "unpack_u8 (le_bytes 1 (flags e)) = Inr (flags e)"
    unfolding unpack_u8_def using fl by (intro unpack_uint_pack) simp_all
  have u64: "unpack_u64 (le_bytes 8 x) = Inr x" if "u64 x" for x
    unfolding unpack_u64_def using that by (intro unpack_uint_pack) (simp_all add: u64_def)
  have "parse_column (le_bytes 2 (int (utf8_len (name e))) @ name_b @ le_bytes 1 (type_id e)
              @ le_bytes 1 (flags e) @ le_bytes 8 (num_values e) @ le_bytes 8 (offset e)
              @ le_bytes 8 (comp_size e) @ le_bytes 8 (uncomp_size e) @ rest)
        = Inr (\<lparr>name = name e, type_id = type_id e, flags = flags e,
                 num_values = num_values e, offset = offset e, comp_size = comp_size e,
                 uncomp_size = uncomp_size e\<rparr>, rest)"
    by (rule parse_column_chunks)
      (simp_all only: length_le_bytes u16 u8t u8f u64 u ln dec)
  then show ?thesis by (simp add: b)
qed

lemma parse_columns_build:
  "build_entries es = Inr b \<Longrightarrow> parse_columns (length es) (b @ rest) = Inr es"
proof (induction es arbitrary: b)
  case Nil
  then show ?case by simp
next
  case (Cons e es)
  from Cons.prems obtain b1 b2 where b1: "build_entry e = Inr b1"
    and b2: "build_entries es = Inr b2" and b: "b = b1 @ b2"
    by (auto simp: ebind_Inr_iff)
  from parse_column_build_entry [OF b1, of "b2 @ rest"] Cons.IH [OF b2] b
  show ?case by simp
qed

lemma parse_header_chunks:
  assumes "length bs = 4" "unpack_u32 bs = Inr sg" "length br = 8" "unpack_u64 br = Inr r"
    and "length bn = 4" "unpack_u32 bn = Inr n" "parse_columns (nat n) buf = Inr es"
  shows "parse_header (bs @ br @ bn @ buf) = Inr (sg, r, es)"
  using assms
  by (simp add: parse_header_def read_field_append SIZE_U32_def SIZE_U64_def)

lemma parse_header_build:
  assumes "build_header s r es = Inr h"
  shows "parse_header (h @ rest) = Inr (s AND 0xFFFFFFFF, r, es)"
proof -
  from assms obtain buf where r: "u64 r" and n: "length es < 2 ^ 32"
    and buf: "build_entries es = Inr buf"
    and h: "h = le_bytes 4 (s AND 0xFFFFFFFF) @ le_bytes 8 r @ le_bytes 4 (int (length es)) @ buf"
    unfolding build_header_Inr_iff by blast
  have "0 \<le> s AND 0xFFFFFFFF" by simp
  moreover have "s AND 0xFFFFFFFF < 256 ^ 4"
    using AND_upper2' [of "0xFFFFFFFF" s] by simp
  ultimately have us: "unpack_u32 (le_bytes 4 (s AND 0xFFFFFFFF)) = Inr (s AND 0xFFFFFFFF)"
    unfolding unpack_u32_def by (rule unpack_uint_pack)
  have ur: "unpack_u64 (le_bytes 8 r) = Inr r"
    unfolding unpack_u64_def using r by (intro unpack_uint_pack) (simp_all add: u64_def)
  have un: "unpack_u32 (le_bytes 4 (int (length es))) = Inr (int (length es))"
    unfolding unpack_u32_def using n by (intro unpack_uint_pack) simp_all
  have "parse_header (le_bytes 4 (s AND 0xFFFFFFFF) @ le_bytes 8 r
           @ le_bytes 4 (int (length es)) @ buf @ rest) = Inr (s AND 0xFFFFFFFF, r, es)"
    using parse_columns_build [OF buf, of rest]
    by (intro parse_header_chunks [OF _ us _ ur _ un]) simp_all
  then show ?thesis by (simp add: h)
qed

lemma encoded_column_eq:
  "SERIALIZERS t = Some ser \<Longrightarrow> ser col = Inr u \<Longrightarrow> encoded_column t col = u"
  by (simp add: encoded_column_def)

lemma block_in_append:
  "block_in compress tail base e col \<Longrightarrow> block_in compress (tail @ x) base e col"
  unfolding block_in_def by (elim exE conjE) (intro exI conjI, assumption+, simp_all)

lemma f_write_end:
  "fpos f = length (fbytes f) \<Longrightarrow>
   f_write f d = \<lparr>fbytes = fbytes f @ d, fpos = length (fbytes f) + length d\<rparr>"
  by (simp add: f_write_def)

lemma write_columns_Cons_Inr:
  assumes "write_columns c cols idx (e # rest) f = (Inr es', f')"
  obtains ser u es'' where "SERIALIZERS (type_id e) = Some ser" "ser (cols ! idx) = Inr u"
    "write_columns c cols (Suc idx) rest (f_write f (c u)) = (Inr es'', f')"
    "es' = e\<lparr>offset := int (f_tell f), comp_size := int (length (c u)),
              uncomp_size := int (length u)\<rparr> # es''"
  using assms
  by (auto simp: Let_def split: option.splits sum.splits prod.splits)

lemma write_columns_blocks:
  assumes "write_columns c cols idx entries f = (Inr es', f')"
    and "fbytes f = pre @ tail" "fpos f = length (fbytes f)"
    and "idx + length entries = length cols"
  shows "\<exists>tail'. fbytes f' = pre @ tail @ tail' \<and> fpos f' = length (fbytes f')
           \<and> length tail' = sum_list (map (\<lambda>(e, col). length (c (encoded_column (type_id e) col)))
                                         (zip entries (drop idx cols)))
           \<and> list_all2 (\<lambda>(e, col) e'. same_schema_fields e e'
                                       \<and> block_in c (tail @ tail') (length pre) e' col)
                (zip entries (drop idx cols)) es'"
  using assms
proof (induction entries arbitrary: idx f tail es')
  case Nil
  then show ?case by simp
next
  case (Cons e rest)
  from Cons.prems(1) obtain ser u es'' where ser: "SERIALIZERS (type_id e) = Some ser"
    and u: "ser (cols ! idx) = Inr u"
    and w: "write_columns c cols (Suc idx) rest (f_write f (c u)) = (Inr es'', f')"
    and es': "es' = e\<lparr>offset := int (f_tell f), comp_size := int (length (c u)),
              uncomp_size := int (length u)\<rparr> # es''"
    by (rule write_columns_Cons_Inr)
  let ?f1 = "f_write f (c u)"
  have f1: "fbytes ?f1 = pre @ (tail @ c u)" "fpos ?f1 = length (fbytes ?f1)"
    using Cons.prems(2,3) by (simp_all add: f_write_end)
  have idx: "idx < length cols" "Suc idx + length rest = length cols"
    using Cons.prems(4) by simp_all
  from Cons.IH [OF w f1 idx(2)] obtain tail'' where
    t1: "fbytes f' = pre @ (tail @ c u) @ tail''" and t2: "fpos f' = length (fbytes f')"
    and t3: "length tail'' = sum_list (map (\<lambda>(e, col). length (c (encoded_column (type_id e) col)))
                                         (zip rest (drop (Suc idx) cols)))"
    and t4: "list_all2 (\<lambda>(e, col) e'. same_schema_fields e e'
                                       \<and> block_in c ((tail @ c u) @ tail'') (length pre) e' col)
                (zip rest (drop (Suc idx) cols)) es''"
    by blast
  have d: "drop idx cols = cols ! idx # drop (Suc idx) cols"
    using idx(1) by (simp add: Cons_nth_drop_Suc)
  let ?e' = "e\<lparr>offset := int (f_tell f), comp_size := int (length (c u)),
              uncomp_size := int (length u)\<rparr>"
  have s: "same_schema_fields e ?e'" by (simp add: same_schema_fields_def)
  have b: "block_in c (tail @ c u @ tail'') (length pre) ?e' (cols ! idx)"
    unfolding block_in_def
    using ser u Cons.prems(2,3)
    by (intro exI [of _ ser] exI [of _ u] exI [of _ "length tail"]) (simp add: f_tell_def)
  show ?case
    using t1 t2 t3 t4 s b
    by (intro exI [of _ "c u @ tail''"]) (simp add: d es' encoded_column_eq [OF ser u])
qed

lemma write_columns_total:
  assumes "list_all (\<lambda>(e, col). \<exists>ser u. SERIALIZERS (type_id e) = Some ser \<and> ser col = Inr u)
             (zip entries (drop idx cols))"
    and "idx + length entries = length cols"
  shows "\<exists>es' f'. write_columns c cols idx entries f = (Inr es', f')"
  using assms
proof (induction entries arbitrary: idx f)
  case Nil
  show ?case by simp
next
  case (Cons e rest)
  have idx: "idx < length cols" "Suc idx + length rest = length cols"
    using Cons.prems(2) by simp_all
  have d: "drop idx cols = cols ! idx # drop (Suc idx) cols"
    using idx(1) by (simp add: Cons_nth_drop_Suc)
  from Cons.prems(1) obtain ser u where ser: "SERIALIZERS (type_id e) = Some ser"
    and u: "ser (cols ! idx) = Inr u"
    and r: "list_all (\<lambda>(e, col). \<exists>ser u. SERIALIZERS (type_id e) = Some ser \<and> ser col = Inr u)
             (zip rest (drop (Suc idx) cols))"
    by (auto simp: d)
  from Cons.IH [OF r idx(2), of "f_write f (c u)"] obtain es'' f' where
    "write_columns c cols (Suc idx) rest (f_write f (c u)) = (Inr es'', f')" by blast
  with ser u show ?case by (simp add: Let_def)
qed

lemma length_cstm_prefix: "length (cstm_prefix n) = 20"
  by (simp add: cstm_prefix_def MAGIC_def)

lemma f_write_header:
  assumes "fbytes f = cstm_prefix n @ h0 @ tail" "length h = length h0"
  shows "fbytes (f_write (f_seek f HEADER_PREFIX_LEN) h) = cstm_prefix n @ h @ tail"
proof -
  have "take 20 (fbytes f) = cstm_prefix n"
    using length_cstm_prefix [of n] by (simp add: assms(1))
  moreover have "drop (20 + length h) (fbytes f) = tail"
    using length_cstm_prefix [of n] by (simp add: assms)
  moreover have "20 - length (fbytes f) = 0"
    using length_cstm_prefix [of n] by (simp add: assms(1))
  ultimately show ?thesis
    by (simp add: f_write_def f_seek_def HEADER_PREFIX_LEN_def)
qed

lemma write_body_start:
  assumes "pack_u64 (int (length h0)) = Inr bl"
  shows "write_body c cols sig rows entries h0 =
     (case write_columns c cols 0 entries
             \<lparr>fbytes = cstm_prefix (length h0) @ h0, fpos = length (cstm_prefix (length h0) @ h0)\<rparr> of
        (Inl e, f) \<Rightarrow> (Inl e, f)
      | (Inr column_entries, f) \<Rightarrow>
          (case build_header sig rows column_entries of
             Inl e \<Rightarrow> (Inl e, f)
           | Inr final_header \<Rightarrow>
               if length final_header \<noteq> length h0
               then (Inl (RuntimeError
                 ''Header length changed between initial and final serialization.''), f)
               else (Inr (), f_write (f_seek f HEADER_PREFIX_LEN) final_header)))"
proof -
  from assms have bl: "bl = le_bytes 8 (int (length h0))"
    by (simp add: pack_u64_def pack_uint_Inr_iff)
  have v: "pack_u8 VERSION = Inr (le_bytes 1 VERSION)"
    by (simp add: pack_u8_def pack_uint_def VERSION_def)
  have "f_write (f_write (f_write (f_write (f_write \<lparr>fbytes = [], fpos = 0\<rparr> MAGIC)
            (le_bytes 1 VERSION)) (replicate 7 0)) bl) h0
        = \<lparr>fbytes = cstm_prefix (length h0) @ h0, fpos = length (cstm_prefix (length h0) @ h0)\<rparr>"
    by (simp add: f_write_end cstm_prefix_def bl MAGIC_def)
  then show ?thesis
    unfolding write_body_def Let_def v assms sum.case by simp
qed

lemma write_body_Inr:
  assumes "write_body c cols sig rows entries h0 = (Inr (), f)"
    and "length entries = length cols"
  shows "\<exists>es' h tail. fbytes f = cstm_prefix (length h) @ h @ tail \<and> length h = length h0
           \<and> length h < 2 ^ 64 \<and> build_header sig rows es' = Inr h
           \<and> length tail = sum_list (map (\<lambda>(e, col). length (c (encoded_column (type_id e) col)))
                                        (zip entries cols))
           \<and> list_all2 (\<lambda>(e, col) e'. same_schema_fields e e'
                                       \<and> block_in c tail (20 + length h) e' col)
                (zip entries cols) es'"
proof -
  obtain bl where bl: "pack_u64 (int (length h0)) = Inr bl"
    using assms(1) by (cases "pack_u64 (int (length h0))")
      (auto simp: write_body_def Let_def split: sum.splits)
  let ?f0 = "\<lparr>fbytes = cstm_prefix (length h0) @ h0, fpos = length (cstm_prefix (length h0) @ h0)\<rparr>"
  note wb = write_body_start [OF bl, of c cols sig rows entries]
  obtain r f1 where w: "write_columns c cols 0 entries ?f0 = (r, f1)" by force
  with assms(1) wb obtain es' where r: "r = Inr es'" by (cases r) auto
  from assms(1) wb w r obtain h where h: "build_header sig rows es' = Inr h"
    by (cases "build_header sig rows es'") auto
  from assms(1) wb w r h have lh: "length h = length h0"
    and f: "f = f_write (f_seek f1 HEADER_PREFIX_LEN) h"
    by (auto split: if_splits)
  have "fbytes ?f0 = (cstm_prefix (length h0) @ h0) @ []" "fpos ?f0 = length (fbytes ?f0)"
    "0 + length entries = length cols" using assms(2) by simp_all
  from write_columns_blocks [OF w [unfolded r] this] obtain tail where
    t1: "fbytes f1 = cstm_prefix (length h0) @ h0 @ tail"
    and t3: "length tail = sum_list (map (\<lambda>(e, col). length (c (encoded_column (type_id e) col)))
                                        (zip entries cols))"
    and t4: "list_all2 (\<lambda>(e, col) e'. same_schema_fields e e'
                                       \<and> block_in c tail (length (cstm_prefix (length h0) @ h0)) e' col)
                (zip entries cols) es'"
    by auto
  from f_write_header [OF t1 lh] f have "fbytes f = cstm_prefix (length h) @ h @ tail"
    by (simp add: lh)
  moreover from bl have "length h < 2 ^ 64"
    by (simp add: pack_u64_def pack_uint_Inr_iff lh)
  ultimately show ?thesis using lh h t3 t4
    by (intro exI [of _ es'] exI [of _ h] exI [of _ tail]) (simp add: length_cstm_prefix)
qed

lemma length_placeholder_entries:
  "length names = length types \<Longrightarrow> length types = length cols \<Longrightarrow>
   length (placeholder_entries names types cols) = length cols"
  by (simp add: placeholder_entries_def)

lemma write_cstm_unfold:
  assumes "length names = length types" "length types = length cols"
  shows "write_cstm c fs p names types cols sig =
     (if cols \<noteq> [] \<and> list_ex (\<lambda>col. length col \<noteq> (if cols = [] then 0 else length (cols ! 0))) cols
      then (Inl (ValueError ''Column length != expected''), fs)
      else (case build_header sig (int (if cols = [] then 0 else length (cols ! 0)))
                   (placeholder_entries names types cols) of
              Inl e \<Rightarrow> (Inl e, fs)
            | Inr initial_header \<Rightarrow>
                (case write_body c cols sig (int (if cols = [] then 0 else length (cols ! 0)))
                        (placeholder_entries names types cols) initial_header of
                   (r, f) \<Rightarrow> (r, fs(p \<mapsto> fbytes f)))))"
proof (cases "cols = []")
  case True
  with assms have e: "names = []" "types = []" by simp_all
  show ?thesis unfolding True e placeholder_entries_def
    by (simp add: write_cstm_def cong: sum.case_cong)
next
  case False
  with assms have "length names > 0" by simp
  with assms False show ?thesis
    unfolding placeholder_entries_def by (simp add: write_cstm_def Let_def)
qed

lemma write_cstm_Inr:
  assumes "write_cstm c fs p names types cols sig = (Inr (), fs')"
  shows "length names = length types \<and> length types = length cols
       \<and> (\<forall>col \<in> set cols. length col = (if cols = [] then 0 else length (cols ! 0)))
       \<and> (\<exists>es' h tail. fs' = fs(p \<mapsto> cstm_prefix (length h) @ h @ tail)
             \<and> length h < 2 ^ 64
             \<and> build_header sig (int (if cols = [] then 0 else length (cols ! 0))) es' = Inr h
             \<and> length tail = sum_list (map (\<lambda>(e, col). length (c (encoded_column (type_id e) col)))
                                        (zip (placeholder_entries names types cols) cols))
             \<and> list_all2 (\<lambda>(e, col) e'. same_schema_fields e e'
                                       \<and> block_in c tail (20 + length h) e' col)
                  (zip (placeholder_entries names types cols) cols) es')"
proof -
  define rows where "rows = (if cols = [] then 0 else length (cols ! 0))"
  from assms have len: "length names = length types" "length types = length cols"
    by (auto simp: write_cstm_def split: if_splits)
  note unf = write_cstm_unfold [OF len, of c fs p sig, folded rows_def]
  from assms unf have eq: "\<not> (cols \<noteq> [] \<and> list_ex (\<lambda>col. length col \<noteq> rows) cols)"
    by (auto split: if_splits)
  then have all: "\<forall>col \<in> set cols. length col = rows"
    by (cases "cols = []") (auto simp: list_ex_iff)
  from assms unf eq obtain h0 where
    h0: "build_header sig (int rows) (placeholder_entries names types cols) = Inr h0"
    by (cases "build_header sig (int rows) (placeholder_entries names types cols)") auto
  from assms unf eq h0 obtain f where
    wb: "write_body c cols sig (int rows) (placeholder_entries names types cols) h0 = (Inr (), f)"
    and fs': "fs' = fs(p \<mapsto> fbytes f)"
    by (auto split: prod.splits)
  from write_body_Inr [OF wb length_placeholder_entries [OF len]] obtain es' h tail where
    b: "fbytes f = cstm_prefix (length h) @ h @ tail" and lh: "length h < 2 ^ 64"
    and h: "build_header sig (int rows) es' = Inr h"
    and t: "length tail = sum_list (map (\<lambda>(e, col). length (c (encoded_column (type_id e) col)))
                                        (zip (placeholder_entries names types cols) cols))"
    and l: "list_all2 (\<lambda>(e, col) e'. same_schema_fields e e'
                                       \<and> block_in c tail (20 + length h) e' col)
                  (zip (placeholder_entries names types cols) cols) es'"
    by blast
  have "\<exists>es' h tail. fs' = fs(p \<mapsto> cstm_prefix (length h) @ h @ tail)
             \<and> length h < 2 ^ 64
             \<and> build_header sig (int rows) es' = Inr h
             \<and> length tail = sum_list (map (\<lambda>(e, col). length (c (encoded_column (type_id e) col)))
                                        (zip (placeholder_entries names types cols) cols))
             \<and> list_all2 (\<lambda>(e, col) e'. same_schema_fields e e'
                                       \<and> block_in c tail (20 + length h) e' col)
                  (zip (placeholder_entries names types cols) cols) es'"
    using fs' b lh h t l by (intro exI [of _ es'] exI [of _ h] exI [of _ tail]) simp
  with len all show ?thesis unfolding rows_def by simp
qed

lemma read_exact_chunk:
  assumes "fbytes f = pre @ a @ rest" "fpos f = length pre" "length a = n"
  shows "read_exact f n = Inr (a, f\<lparr>fpos := length pre + n\<rparr>)"
  using assms by (simp add: read_exact_def f_read_def)

lemma read_prefix_chunks:
  assumes "length v = 1" "length z = 7" "length bl = 8" "unpack_u64 bl = Inr (int (length h))"
    and "parse_header h = Inr (sg, rows, es)"
  shows "read_prefix_and_header \<lparr>fbytes = MAGIC @ v @ z @ bl @ h @ tail, fpos = 0\<rparr>
         = Inr (es, \<lparr>fbytes = MAGIC @ v @ z @ bl @ h @ tail, fpos = 20 + length h\<rparr>)"
proof -
  let ?b = "MAGIC @ v @ z @ bl @ h @ tail"
  have lm: "length MAGIC = 4" by (simp add: MAGIC_def)
  have 1: "read_exact \<lparr>fbytes = ?b, fpos = 0\<rparr> 4 = Inr (MAGIC, \<lparr>fbytes = ?b, fpos = 4\<rparr>)"
    using read_exact_chunk [of "\<lparr>fbytes = ?b, fpos = 0\<rparr>" "[]" MAGIC "v @ z @ bl @ h @ tail" 4]
    by (simp add: lm)
  have 2: "read_exact \<lparr>fbytes = ?b, fpos = 4\<rparr> (Suc 0) = Inr (v, \<lparr>fbytes = ?b, fpos = 5\<rparr>)"
    using read_exact_chunk [of "\<lparr>fbytes = ?b, fpos = 4\<rparr>" MAGIC v "z @ bl @ h @ tail" 1]
    by (simp add: lm assms)
  have 3: "read_exact \<lparr>fbytes = ?b, fpos = 5\<rparr> 7 = Inr (z, \<lparr>fbytes = ?b, fpos = 12\<rparr>)"
    using read_exact_chunk [of "\<lparr>fbytes = ?b, fpos = 5\<rparr>" "MAGIC @ v" z "bl @ h @ tail" 7]
    by (simp add: lm assms)
  have 4: "read_exact \<lparr>fbytes = ?b, fpos = 12\<rparr> 8 = Inr (bl, \<lparr>fbytes = ?b, fpos = 20\<rparr>)"
    using read_exact_chunk [of "\<lparr>fbytes = ?b, fpos = 12\<rparr>" "MAGIC @ v @ z" bl "h @ tail" 8]
    by (simp add: lm assms)
  have 5: "read_exact \<lparr>fbytes = ?b, fpos = 20\<rparr> (length h)
           = Inr (h, \<lparr>fbytes = ?b, fpos = 20 + length h\<rparr>)"
    using read_exact_chunk [of "\<lparr>fbytes = ?b, fpos = 20\<rparr>" "MAGIC @ v @ z @ bl" h tail "length h"]
    by (simp add: lm assms)
  show ?thesis
    unfolding read_prefix_and_header_def
    by (simp add: 1 2 3 4 5 assms(4,5) del: append.simps)
qed

lemma read_prefix_and_header_written:
  assumes "build_header sig rows es = Inr h" "length h < 2 ^ 64"
  shows "read_prefix_and_header \<lparr>fbytes = cstm_prefix (length h) @ h @ tail, fpos = 0\<rparr>
         = Inr (es, \<lparr>fbytes = cstm_prefix (length h) @ h @ tail, fpos = 20 + length h\<rparr>)"
proof -
  have u: "unpack_u64 (le_bytes 8 (int (length h))) = Inr (int (length h))"
    unfolding unpack_u64_def using assms(2) by (intro unpack_uint_pack) simp_all
  have p: "parse_header h = Inr (sig AND 0xFFFFFFFF, rows, es)"
    using parse_header_build [OF assms(1), of "[]"] by simp
  have "read_prefix_and_header
          \<lparr>fbytes = MAGIC @ le_bytes 1 VERSION @ replicate 7 0 @ le_bytes 8 (int (length h)) @ h @ tail,
           fpos = 0\<rparr>
        = Inr (es, \<lparr>fbytes = MAGIC @ le_bytes 1 VERSION @ replicate 7 0
                             @ le_bytes 8 (int (length h)) @ h @ tail,
                   fpos = 20 + length h\<rparr>)"
    by (rule read_prefix_chunks [OF _ _ _ u p]) simp_all
  then show ?thesis by (simp add: cstm_prefix_def)
qed

lemma read_column_block:
  assumes b: "block_in c tailF base e col"
    and f: "fbytes f = pre @ tailF" "length pre = base"
    and n: "num_values e = int (length col)"
    and dc: "\<forall>x. d (c x) = Some x"
  shows "\<exists>f'. read_column d f e = Inr ((name e, read_back (type_id e) col), f')
              \<and> fbytes f' = fbytes f"
proof -
  from b obtain ser u k where ser: "SERIALIZERS (type_id e) = Some ser" and u: "ser col = Inr u"
    and us: "uncomp_size e = int (length u)" and cs: "comp_size e = int (length (c u))"
    and off: "offset e = int (base + k)" and k: "k + length (c u) \<le> length tailF"
    and tk: "take (length (c u)) (drop k tailF) = c u"
    unfolding block_in_def by blast
  from block_roundtrip [OF ser u] obtain par where par: "PARSERS (type_id e) = Some par"
    and rt: "par u (int (length col)) = Inr (read_back (type_id e) col)" by blast
  show ?thesis
  proof (cases "comp_size e = 0 \<and> uncomp_size e = 0")
    case True
    with us have "u = []" by simp
    with serialized_empty [OF ser] u have "col = []" by simp
    with True show ?thesis by (simp add: read_column_def read_back_def)
  next
    case False
    let ?f1 = "f_seek f (nat (offset e))"
    have nk: "nat (offset e) = base + k" using off by simp
    have nc: "nat (comp_size e) = length (c u)" using cs by simp
    have tk': "take (length (c u)) (drop (base + k) (fbytes f)) = c u"
      using f tk by simp
    have re: "read_exact ?f1 (nat (comp_size e))
                   = Inr (c u, ?f1\<lparr>fpos := fpos ?f1 + length (c u)\<rparr>)"
      unfolding read_exact_def f_read_def f_seek_def nk nc Let_def
      by (simp add: tk')
    have "read_column d f e
          = Inr ((name e, read_back (type_id e) col), ?f1\<lparr>fpos := fpos ?f1 + length (c u)\<rparr>)"
      unfolding read_column_def if_not_P [OF False] Let_def re
      by (simp add: dc us par n rt)
    moreover have "fbytes (?f1\<lparr>fpos := fpos ?f1 + length (c u)\<rparr>) = fbytes f"
      by (simp add: f_seek_def)
    ultimately show ?thesis by blast
  qed
qed

lemma read_columns_blocks:
  assumes "list_all2 (\<lambda>e col. block_in c tailF base e col \<and> num_values e = int (length col)) es cols"
    and "fbytes f = pre @ tailF" "length pre = base" "\<forall>x. d (c x) = Some x"
  shows "read_columns d f es = Inr (map2 (\<lambda>e col. (name e, read_back (type_id e) col)) es cols)"
  using assms
proof (induction arbitrary: f rule: list_all2_induct)
  case Nil
  show ?case by simp
next
  case (Cons e es col cols)
  from Cons.hyps(1) have b: "block_in c tailF base e col" and n: "num_values e = int (length col)"
    by simp_all
  from read_column_block [OF b Cons.prems(1,2) n Cons.prems(3)] obtain f' where
    r: "read_column d f e = Inr ((name e, read_back (type_id e) col), f')"
    and f': "fbytes f' = fbytes f" by blast
  from f' Cons.prems(1) have "fbytes f' = pre @ tailF" by simp
  from Cons.IH [OF this Cons.prems(2,3)] r show ?case by simp
qed

end
